theory Spec2Isabelle
  imports Main "HOL-Library.Sublist" "HOL-Library.AList"
begin

section \<open>Python values and failures\<close>

text \<open>
  Text is modelled as \<open>string\<close>, one \<open>char\<close> per code point below 256.  A run of the
  program ends normally, leaves through \<open>exit(n)\<close>, or dies of an exception that nothing
  in the program catches.
\<close>

datatype error = Exit nat | IndexError | UnboundLocalError | RegexError

datatype log_entry = LogInfo string | LogWarning string | LogError string

text \<open>
  A \<open>for\<close> loop over a list whose body may fail: the first failure leaves the loop and
  the function.
\<close>

fun for_each :: "('s \<Rightarrow> 'a \<Rightarrow> error + 's) \<Rightarrow> 's \<Rightarrow> 'a list \<Rightarrow> error + 's" where
  "for_each body st [] = Inr st"
| "for_each body st (x # xs) =
     (case body st x of Inl e \<Rightarrow> Inl e | Inr st' \<Rightarrow> for_each body st' xs)"

text \<open>
  Subscription \<open>xs[i]\<close>: position \<open>i\<close> from the front when \<open>i\<close> is not negative,
  position \<open>-i\<close> from the back when it is, and \<open>IndexError\<close> outside the list.
\<close>

definition py_get :: "'a list \<Rightarrow> int \<Rightarrow> error + 'a" where
  "py_get xs i =
     (if 0 \<le> i \<and> nat i < length xs then Inr (xs ! nat i)
      else if i < 0 \<and> nat (- i) \<le> length xs then Inr (xs ! (length xs - nat (- i)))
      else Inl IndexError)"

text \<open>\<open>xs.index(x)\<close> for an \<open>x\<close> known to be in \<open>xs\<close>: the first position.\<close>

fun py_index :: "'a list \<Rightarrow> 'a \<Rightarrow> nat" where
  "py_index [] x = 0"
| "py_index (y # ys) x = (if y = x then 0 else Suc (py_index ys x))"

text \<open>\<open>s.split(sep)\<close> for a one-character separator: never the empty list.\<close>

fun py_split :: "char \<Rightarrow> string \<Rightarrow> string list" where
  "py_split sep [] = [[]]"
| "py_split sep (c # cs) =
     (if c = sep then [] # py_split sep cs
      else (case py_split sep cs of [] \<Rightarrow> [[c]] | w # ws \<Rightarrow> (c # w) # ws))"

text \<open>The characters \<open>str.isspace\<close> accepts, among the code points below 256.\<close>

definition py_isspace :: "char \<Rightarrow> bool" where
  "py_isspace c = (of_char c \<in> set [9, 10, 11, 12, 13, 28, 29, 30, 31, 32, 133, 160 :: nat])"

definition py_lstrip :: "string \<Rightarrow> string" where
  "py_lstrip s = dropWhile py_isspace s"

definition py_rstrip :: "string \<Rightarrow> string" where
  "py_rstrip s = rev (dropWhile py_isspace (rev s))"

definition py_strip :: "string \<Rightarrow> string" where
  "py_strip s = py_rstrip (py_lstrip s)"

text \<open>\<open>s.lstrip("#")\<close>.\<close>

definition lstrip_hash :: "string \<Rightarrow> string" where
  "lstrip_hash s = dropWhile (\<lambda>c. c = CHR ''#'') s"

text \<open>\<open>sep.join(ws)\<close>.\<close>

fun py_join :: "char \<Rightarrow> string list \<Rightarrow> string" where
  "py_join sep [] = []"
| "py_join sep [w] = w"
| "py_join sep (w # v # ws) = w @ sep # py_join sep (v # ws)"

text \<open>\<open>s.replace(old, new)\<close> for a non-empty \<open>old\<close>: left to right, without overlap.\<close>

function py_replace :: "string \<Rightarrow> string \<Rightarrow> string \<Rightarrow> string" where
  "py_replace old new [] = []"
| "py_replace old new (c # cs) =
     (if old \<noteq> [] \<and> prefix old (c # cs)
      then new @ py_replace old new (drop (length old) (c # cs))
      else c # py_replace old new cs)"
  by pat_completeness auto
termination
  by (relation "measure (\<lambda>(old, new, s). length s)") auto

declare py_replace.simps [simp del]

text \<open>\<open>str(n)\<close> for an integer.\<close>

fun str_nat :: "nat \<Rightarrow> string" where
  "str_nat n =
     (if n < 10 then [char_of (48 + n)]
      else str_nat (n div 10) @ [char_of (48 + n mod 10)])"

declare str_nat.simps [simp del]

definition str_int :: "int \<Rightarrow> string" where
  "str_int i = (if i < 0 then CHR ''-'' # str_nat (nat (- i)) else str_nat (nat i))"

text \<open>The double quote that the log messages put around names.\<close>

definition dq :: string where
  "dq = [CHR 0x22]"

section \<open>Regular expressions of the shared functions\<close>

text \<open>
  The fragment of Python's \<open>re\<close> that the nomenclature pattern uses: literals, character
  classes, concatenation and alternation.  \<open>rx_rest r s\<close> lists what can remain of \<open>s\<close>
  after a match of \<open>r\<close> at its start.
\<close>

datatype rx = Eps | Lit char | Cls "char list" | Cat rx rx | Alt rx rx

fun rx_rest :: "rx \<Rightarrow> string \<Rightarrow> string list" where
  "rx_rest Eps s = [s]"
| "rx_rest (Lit c) s = (case s of [] \<Rightarrow> [] | x # t \<Rightarrow> if x = c then [t] else [])"
| "rx_rest (Cls cs) s = (case s of [] \<Rightarrow> [] | x # t \<Rightarrow> if x \<in> set cs then [t] else [])"
| "rx_rest (Cat a b) s = concat (map (rx_rest b) (rx_rest a s))"
| "rx_rest (Alt a b) s = rx_rest a s @ rx_rest b s"

definition rx_seq :: "rx list \<Rightarrow> rx" where
  "rx_seq rs = foldr Cat rs Eps"

definition rx_str :: "string \<Rightarrow> rx" where
  "rx_str s = rx_seq (map Lit s)"

definition rx_rep :: "nat \<Rightarrow> rx \<Rightarrow> rx" where
  "rx_rep n r = rx_seq (replicate n r)"

definition rx_digit :: rx where
  "rx_digit = Cls ''0123456789''"

text \<open>\<open>$\<close>: the end of the text, or the position before a final newline.\<close>

definition rx_dollar :: "string \<Rightarrow> bool" where
  "rx_dollar s = (s = [] \<or> s = [CHR 0x0A])"

text \<open>\<open>re.match(r + "$", s)\<close>: a match at the start of \<open>s\<close> that reaches \<open>$\<close>.\<close>

definition re_match_dollar :: "rx \<Rightarrow> string \<Rightarrow> bool" where
  "re_match_dollar r s = list_ex rx_dollar (rx_rest r s)"

section \<open>The shared functions\<close>

text \<open>\<open>find_ID_match\<close>: the approved IDs that are a prefix of the sample ID.\<close>

definition find_ID_match :: "string \<Rightarrow> string list \<Rightarrow> string \<Rightarrow> string list" where
  "find_ID_match sample_id approved_ids method =
     (if method = ''prefix''
      then filter (\<lambda>id_candidate. prefix id_candidate sample_id) approved_ids
      else [])"

text \<open>The InPreD nomenclature, version 3, as \<open>is_InPreD_ID\<close> compiles it.\<close>

definition id_regex :: rx where
  "id_regex = rx_seq
     [rx_str ''IP'', Cls ''ADHO'', rx_rep 4 rx_digit, Lit CHR ''-'',
      Cls ''CDR'', Alt (Cat (Lit CHR ''0'') (Cls ''1234567'')) (Alt (rx_str ''50'') (rx_str ''51'')),
      Lit CHR ''-'',
      Cls ''ACDdEeLMNPpRrTX'', rx_rep 2 rx_digit, Lit CHR ''-'',
      Cls ''ABCEFMS'', Alt (Cat (Cls ''012'') rx_digit) (Alt (rx_str ''30'') (rx_str ''XX''))]"

definition is_InPreD_ID :: "string \<Rightarrow> bool" where
  "is_InPreD_ID input_ID = re_match_dollar id_regex input_ID"

text \<open>\<open>strip_path_prefix\<close>.\<close>

definition strip_path_prefix :: "string \<Rightarrow> string \<Rightarrow> bool \<times> string" where
  "strip_path_prefix file_path path_prefix =
     (if prefix path_prefix file_path
      then (True, drop (length path_prefix) file_path)
      else (False, ''NA''))"

text \<open>
  A sample is eligible when the supplied ID list has a match for it (the list
  \<open>find_ID_match\<close> returns is not empty).
\<close>

definition id_eligible :: "string list \<Rightarrow> string \<Rightarrow> bool" where
  "id_eligible approved_ids sample_id = (find_ID_match sample_id approved_ids ''prefix'' \<noteq> [])"

text \<open>
  The test both resolvers make after an ID match: with the nomenclature required, an ID
  that is not an InPreD ID is ignored.
\<close>

definition nomenclature_violation :: "bool \<Rightarrow> string \<Rightarrow> bool" where
  "nomenclature_violation require_inpred_nomenclature sample_id =
     (require_inpred_nomenclature \<and> \<not> is_InPreD_ID sample_id)"

section \<open>Paths\<close>

text \<open>
  \<open>pathlib\<close> on a POSIX system reads a path as a root (\<open>/\<close>, or \<open>//\<close> for exactly two
  leading slashes, or none) and the components between slashes, without the empty ones and
  the dots.  \<open>path_parent p\<close> is \<open>str(Path(p).parents[0])\<close>, which raises for a path
  without components.
\<close>

definition path_root :: "string \<Rightarrow> string" where
  "path_root p =
     (if prefix ''//'' p \<and> \<not> prefix ''///'' p then ''//''
      else if prefix ''/'' p then ''/'' else [])"

definition path_parts :: "string \<Rightarrow> string list" where
  "path_parts p = filter (\<lambda>c. c \<noteq> [] \<and> c \<noteq> ''.'') (py_split CHR ''/'' p)"

definition path_str :: "string \<Rightarrow> string list \<Rightarrow> string" where
  "path_str root parts =
     (if root = [] \<and> parts = [] then ''.'' else root @ py_join CHR ''/'' parts)"

definition path_parent :: "string \<Rightarrow> error + string" where
  "path_parent p =
     (let parts = path_parts p
      in if parts = [] then Inl IndexError
         else Inr (path_str (path_root p) (butlast parts)))"

text \<open>\<open>Path(p).name\<close>.\<close>

definition path_name :: "string \<Rightarrow> string" where
  "path_name p = (let parts = path_parts p in if parts = [] then [] else last parts)"

text \<open>What decreases from a path to its parent.\<close>

definition path_size :: "string \<Rightarrow> nat" where
  "path_size p = (if p = ''.'' then 0 else Suc (length p))"

lemma py_split_nonempty: "py_split sep s \<noteq> []"
  by (induction s) (auto split: list.splits)

lemma py_join_split: "py_join sep (py_split sep s) = s"
proof (induction s)
  case Nil
  then show ?case by simp
next
  case (Cons c s)
  obtain w ws where sp: "py_split sep s = w # ws"
    using py_split_nonempty[of sep s] by (cases "py_split sep s") auto
  show ?case
  proof (cases "c = sep")
    case True
    then show ?thesis using Cons sp by simp
  next
    case False
    then show ?thesis using Cons sp by (cases ws) auto
  qed
qed

lemma length_py_join_Cons:
  "length (py_join sep (w # ws)) =
     length w + (if ws = [] then 0 else Suc (length (py_join sep ws)))"
  by (cases ws) auto

lemma length_py_join_filter: "length (py_join sep (filter P ws)) \<le> length (py_join sep ws)"
proof (induction ws)
  case Nil
  then show ?case by simp
next
  case (Cons w ws)
  then show ?case by (cases "P w") (auto simp: length_py_join_Cons)
qed

lemma length_parts_le: "length (py_join CHR ''/'' (path_parts p)) \<le> length p"
  using length_py_join_filter[of "CHR ''/''" _ "py_split CHR ''/'' p"]
  by (simp add: path_parts_def py_join_split)

lemma path_parts_slash: "path_parts (CHR ''/'' # p) = path_parts p"
  by (simp add: path_parts_def)

lemma length_root_parts_le:
  "length (path_root p) + length (py_join CHR ''/'' (path_parts p)) \<le> length p"
proof (cases p)
  case Nil
  then show ?thesis by (simp add: path_root_def path_parts_def)
next
  case (Cons c q)
  show ?thesis
  proof (cases "c = CHR ''/''")
    case False
    then show ?thesis using Cons length_parts_le[of p] by (simp add: path_root_def)
  next
    case True
    note c = this
    show ?thesis
    proof (cases "path_root p = ''//''")
      case True
      then obtain r where "q = CHR ''/'' # r"
        using Cons c by (cases q) (auto simp: path_root_def split: if_splits)
      then show ?thesis
        using True Cons c length_parts_le[of r] by (simp add: path_parts_slash)
    next
      case False
      then have "path_root p = ''/''"
        using Cons c by (auto simp: path_root_def split: if_splits)
      then show ?thesis
        using Cons c length_parts_le[of q] by (simp add: path_parts_slash)
    qed
  qed
qed

lemma length_py_join_butlast:
  "ws \<noteq> [] \<Longrightarrow> last ws \<noteq> [] \<Longrightarrow>
   length (py_join sep (butlast ws)) < length (py_join sep ws)"
proof (induction ws)
  case Nil
  then show ?case by simp
next
  case (Cons w ws)
  then show ?case by (cases ws) (auto simp: length_py_join_Cons)
qed

lemma path_parent_smaller: "path_parent p = Inr q \<Longrightarrow> path_size q < path_size p"
proof -
  assume a: "path_parent p = Inr q"
  let ?ps = "path_parts p"
  from a have ne: "?ps \<noteq> []" and q: "q = path_str (path_root p) (butlast ?ps)"
    by (auto simp: path_parent_def Let_def split: if_splits)
  from ne have "last ?ps \<in> set ?ps" by simp
  then have l: "last ?ps \<noteq> []" by (simp add: path_parts_def)
  have pdot: "p \<noteq> ''.''" using ne by (auto simp: path_parts_def)
  show ?thesis
  proof (cases "q = ''.''")
    case True
    then show ?thesis using pdot by (simp add: path_size_def)
  next
    case False
    then have "q = path_root p @ py_join CHR ''/'' (butlast ?ps)"
      using q by (simp add: path_str_def split: if_splits)
    then have "length q < length (path_root p) + length (py_join CHR ''/'' ?ps)"
      using length_py_join_butlast[OF ne l, of "CHR ''/''"] by simp
    then have "length q < length p" using length_root_parts_le[of p] by simp
    then show ?thesis using False pdot by (simp add: path_size_def)
  qed
qed

text \<open>The ancestors of a path, nearest first: \<open>[str(a) for a in Path(p).parents]\<close>.\<close>

function ancestors :: "string \<Rightarrow> string list" where
  "ancestors p = (case path_parent p of Inl e \<Rightarrow> [] | Inr q \<Rightarrow> q # ancestors q)"
  by pat_completeness auto
termination
  by (relation "measure path_size") (auto dest: path_parent_smaller)

declare ancestors.simps [simp del]

section \<open>The path dictionary and its classification\<close>

text \<open>
  \<open>path_dict\<close> maps each listed path to its status code: \<open>S\<close> (skip), \<open>E\<close> (export) or
  \<open>I\<close> (ignore).  A Python dictionary keeps its keys in insertion order and an assignment to
  a present key keeps the key's place, which is what \<open>AList.update\<close> does.
\<close>

type_synonym path_dict = "(string \<times> string) list"

definition has_key :: "path_dict \<Rightarrow> string \<Rightarrow> bool" where
  "has_key path_dict k = (k \<in> set (map fst path_dict))"

text \<open>\<open>a | b\<close> on dictionaries.\<close>

definition dict_union :: "path_dict \<Rightarrow> path_dict \<Rightarrow> path_dict" where
  "dict_union a b = fold (\<lambda>(k, v). AList.update k v) b a"

text \<open>
  The \<open>while\<close> loop of \<open>reclassify_matching_paths\<close>: from the parent of a matching path
  upwards, each directory that is a key of the dictionary is set to \<open>I\<close>, until the base
  path or a path that is not a key is reached.
\<close>

function mark_parents :: "string \<Rightarrow> string \<Rightarrow> path_dict \<Rightarrow> error + path_dict" where
  "mark_parents parent_path base_path path_dict =
     (if parent_path \<noteq> base_path then
        (if has_key path_dict parent_path then
           (case path_parent parent_path of
              Inl e \<Rightarrow> Inl e
            | Inr next_parent \<Rightarrow>
                mark_parents next_parent base_path (AList.update parent_path ''I'' path_dict))
         else Inr path_dict)
      else Inr path_dict)"
  by pat_completeness auto
termination
  by (relation "measure (\<lambda>(parent_path, base_path, path_dict). path_size parent_path)")
     (auto dest: path_parent_smaller)

declare mark_parents.simps [simp del]

text \<open>The body of the \<open>for\<close> loop over the matching paths.\<close>

definition mark_matching_path :: "string \<Rightarrow> path_dict \<Rightarrow> string \<Rightarrow> error + path_dict" where
  "mark_matching_path base_path path_dict available_path =
     (case path_parent available_path of
        Inl e \<Rightarrow> Inl e
      | Inr parent_path \<Rightarrow>
          mark_parents parent_path base_path (AList.update available_path ''E'' path_dict))"

text \<open>
  \<open>reclassify_matching_paths\<close>.  The compiled pattern is the set of texts that
  \<open>re.fullmatch\<close> accepts, as a predicate.  The result is the number of matches and the
  dictionary as the call leaves it.
\<close>

definition reclassify_matching_paths ::
    "(string \<Rightarrow> bool) \<Rightarrow> path_dict \<Rightarrow> string \<Rightarrow> error + nat \<times> path_dict" where
  "reclassify_matching_paths path_pattern path_dict base_path =
     (let matching_paths = filter path_pattern (map fst path_dict)
      in case for_each (mark_matching_path base_path) path_dict matching_paths of
           Inl e \<Rightarrow> Inl e
         | Inr d \<Rightarrow> Inr (length matching_paths, d))"

text \<open>
  The dictionary a root starts from: every path of the recursive listing with status
  \<open>S\<close>, without the root itself (which the listing gives with a final slash).
\<close>

definition initial_paths :: "string list \<Rightarrow> string \<Rightarrow> path_dict" where
  "initial_paths listing root =
     (let d = fold (\<lambda>item. AList.update item ''S'') listing []
      in if has_key d (root @ ''/'') then AList.delete (root @ ''/'') d else d)"

text \<open>
  The pattern loops of \<open>main\<close> call \<open>reclassify_matching_paths\<close> for one compiled pattern
  after the other on the same dictionary and with the same base path.
  \<open>apply_patterns\<close> is that sequence of calls.
\<close>

definition apply_pattern :: "string \<Rightarrow> path_dict \<Rightarrow> (string \<Rightarrow> bool) \<Rightarrow> error + path_dict" where
  "apply_pattern base_path path_dict path_pattern =
     (case reclassify_matching_paths path_pattern path_dict base_path of
        Inl e \<Rightarrow> Inl e
      | Inr (matching_paths, d) \<Rightarrow> Inr d)"

definition apply_patterns ::
    "(string \<Rightarrow> bool) list \<Rightarrow> string \<Rightarrow> path_dict \<Rightarrow> error + path_dict" where
  "apply_patterns path_patterns base_path path_dict =
     for_each (apply_pattern base_path) path_dict path_patterns"

section \<open>Loading the ID list\<close>

text \<open>
  The variables of \<open>main\<close> that the loop over the lines of the ID list file reads and
  writes.  \<open>ID_string\<close> has no value before the first data line.
\<close>

record id_list_state =
  id_header_read :: bool
  fi_matching_method :: int
  fi_target_ID :: int
  ID_prefix_list :: "string list"
  ID_string :: "string option"
  id_log :: "log_entry list"

definition id_list_start :: id_list_state where
  "id_list_start =
     \<lparr>id_header_read = False, fi_matching_method = - 1, fi_target_ID = - 1,
      ID_prefix_list = [], ID_string = None,
      id_log = [LogInfo ''Loading the supplied IDs...'']\<rparr>"

text \<open>One line of the ID list file.\<close>

definition id_list_line :: "id_list_state \<Rightarrow> string \<Rightarrow> error + id_list_state" where
  "id_list_line st line =
     (let line_s = py_split CHR 0x09 (py_strip line)
      in if length line_s < 2 then Inl (Exit 10)
         else if \<not> id_header_read st then
           (if ''matching_method'' \<notin> set line_s then Inl (Exit 18)
            else if ''target_ID'' \<notin> set line_s then Inl (Exit 18)
            else Inr (st\<lparr>fi_matching_method := int (py_index line_s ''matching_method''),
                         fi_target_ID := int (py_index line_s ''target_ID''),
                         id_header_read := True\<rparr>))
         else
           (case py_get line_s (fi_matching_method st) of
              Inl e \<Rightarrow> Inl e
            | Inr matching_method \<Rightarrow>
                (case py_get line_s (fi_target_ID st) of
                   Inl e \<Rightarrow> Inl e
                 | Inr ID \<Rightarrow>
                     (let st1 = st\<lparr>ID_string := Some ID\<rparr>
                      in if ID \<notin> set ['''', ''.''] then
                           (if matching_method = ''prefix''
                            then Inr (st1\<lparr>ID_prefix_list := ID_prefix_list st1 @ [ID]\<rparr>)
                            else Inr (st1\<lparr>id_log := id_log st1 @
                                   [LogWarning ('' - Unsupported ID matching method keyword encountered''
                                      @ '' (method keyword: '' @ dq @ matching_method @ dq
                                      @ '', ID: '' @ dq @ ID @ dq
                                      @ ''). The ID will be ignored.'')]\<rparr>))
                         else if ID = '''' then
                           Inr (st1\<lparr>id_log := id_log st1 @
                                  [LogWarning ('' - Unsupported ID string (encountered ID value: ''
                                     @ dq @ ID @ dq @ ''). The ID will be ignored.'')]\<rparr>)
                         else Inr st1))))"

text \<open>The whole file, and the message after it.\<close>

definition load_ID_list :: "string list \<Rightarrow> error + id_list_state" where
  "load_ID_list id_infile =
     (case for_each id_list_line id_list_start id_infile of
        Inl e \<Rightarrow> Inl e
      | Inr st \<Rightarrow>
          Inr (st\<lparr>id_log := id_log st @
                 [LogInfo ('' - ID loading done ('' @ str_nat (length (ID_prefix_list st))
                    @ '' IDs loaded).'')]\<rparr>))"

section \<open>LocalApp: the pattern loops\<close>

text \<open>
  \<open>re_compile\<close> stands for \<open>re.compile\<close>: it gives the predicate of the texts that match
  in full, or fails on a text that is no regular expression.  \<open>extraction_patterns\<close> gives
  the patterns of a category with their expected numbers of matches, in the order of the
  pattern file.  The samples that qualify are given with their pair IDs and the entries of
  the ID list they matched, in the order of the sample sheet.
\<close>

definition localapp_general_pattern ::
    "(string \<Rightarrow> error + (string \<Rightarrow> bool)) \<Rightarrow> string \<Rightarrow>
     path_dict \<times> log_entry list \<Rightarrow> string \<times> int \<Rightarrow> error + path_dict \<times> log_entry list" where
  "localapp_general_pattern re_compile input_dir_cont_path st pattern_row =
     (case st of (available_file_paths_dict, lg) \<Rightarrow>
      case pattern_row of (path_pattern, expected_matches) \<Rightarrow>
        (case re_compile (input_dir_cont_path @ ''/'' @ path_pattern) of
           Inl e \<Rightarrow> Inl e
         | Inr path_regex \<Rightarrow>
             (case reclassify_matching_paths path_regex available_file_paths_dict
                     input_dir_cont_path of
                Inl e \<Rightarrow> Inl e
              | Inr (extraction_matches, d) \<Rightarrow>
                  Inr (d,
                       if int extraction_matches < expected_matches
                       then lg @ [LogWarning
                              (''Too few matches found for the following path pattern: ''
                               @ dq @ input_dir_cont_path @ ''/'' @ path_pattern @ dq
                               @ '' ('' @ str_int expected_matches @ '' matches expected, ''
                               @ str_nat extraction_matches @ '' found).'')]
                       else lg))))"

definition localapp_sample_pattern ::
    "(string \<Rightarrow> error + (string \<Rightarrow> bool)) \<Rightarrow> string \<Rightarrow> string \<Rightarrow> string \<Rightarrow>
     path_dict \<times> log_entry list \<Rightarrow> string \<times> int \<Rightarrow> error + path_dict \<times> log_entry list" where
  "localapp_sample_pattern re_compile input_dir_cont_path sample_id pair_id st pattern_row =
     (case st of (available_file_paths_dict, lg) \<Rightarrow>
      case pattern_row of (path_pattern, expected_matches) \<Rightarrow>
        (let sample_path_pattern =
               py_replace ''${SAMPLE_ID}'' sample_id
                 (py_replace ''${PAIR_ID}'' pair_id path_pattern)
         in case re_compile (input_dir_cont_path @ ''/'' @ sample_path_pattern) of
              Inl e \<Rightarrow> Inl e
            | Inr path_regex \<Rightarrow>
                (case reclassify_matching_paths path_regex available_file_paths_dict
                        input_dir_cont_path of
                   Inl e \<Rightarrow> Inl e
                 | Inr (extraction_matches, d) \<Rightarrow>
                     Inr (d,
                          if int extraction_matches < expected_matches
                          then lg @ [LogWarning
                                 (''Too few matches found for the following path pattern for sample ''
                                  @ dq @ sample_id @ dq @ '': '' @ dq @ input_dir_cont_path
                                  @ ''/'' @ sample_path_pattern @ dq
                                  @ '' ('' @ str_int expected_matches @ '' matches expected, ''
                                  @ str_nat extraction_matches @ '' found).'')]
                          else lg))))"

text \<open>
  The two loops of \<open>main\<close> over the categories of general files and of sample-wise files,
  on the dictionary of the listing of the input directory.
\<close>

definition localapp_classify ::
    "(string \<Rightarrow> error + (string \<Rightarrow> bool)) \<Rightarrow> (string \<Rightarrow> (string \<times> int) list) \<Rightarrow> bool \<Rightarrow>
     (string \<times> string \<times> string) list \<Rightarrow> (string \<times> string \<times> string) list \<Rightarrow> string \<Rightarrow>
     string list \<Rightarrow> log_entry list \<Rightarrow> error + path_dict \<times> log_entry list" where
  "localapp_classify re_compile extraction_patterns from_BCL DNA_sample_list RNA_sample_list
       input_dir_cont_path listing lg =
     (case for_each
             (\<lambda>st file_pattern_type.
                if file_pattern_type = ''general_bcl'' \<and> \<not> from_BCL then Inr st
                else for_each (localapp_general_pattern re_compile input_dir_cont_path) st
                       (extraction_patterns file_pattern_type))
             (initial_paths listing input_dir_cont_path, lg)
             [''general_all'', ''general_bcl''] of
        Inl e \<Rightarrow> Inl e
      | Inr st1 \<Rightarrow>
          for_each
            (\<lambda>st file_pattern_type.
               if file_pattern_type \<in> set [''sample_DNA_bcl'', ''sample_RNA_bcl'']
                  \<and> \<not> from_BCL then Inr st
               else
                 for_each
                   (\<lambda>st2 sample.
                      for_each
                        (localapp_sample_pattern re_compile input_dir_cont_path
                           (fst sample) (fst (snd sample)))
                        st2 (extraction_patterns file_pattern_type))
                   st
                   (if file_pattern_type \<in> set [''sample_RNA'', ''sample_RNA_bcl'']
                    then RNA_sample_list else DNA_sample_list))
            st1
            [''sample_DNA'', ''sample_RNA'', ''sample_DNA_bcl'', ''sample_RNA_bcl''])"

section \<open>TSOPPI: the sample list of a patient directory\<close>

record sample_list_state =
  sl_header_read :: bool
  fi_sample_type :: int
  fi_sample_output_ID :: int
  eligible_sample_dict :: "(string \<times> string) list"
  sample_count :: nat
  sl_log :: "log_entry list"

definition sample_list_start :: "log_entry list \<Rightarrow> sample_list_state" where
  "sample_list_start lg =
     \<lparr>sl_header_read = False, fi_sample_type = - 1, fi_sample_output_ID = - 1,
      eligible_sample_dict = [], sample_count = 0, sl_log = lg\<rparr>"

text \<open>
  One line of \<open>sample_list.tsv\<close>.  \<open>ids\<close> holds what loading the ID list left behind: the
  prefixes, and the variable \<open>ID_string\<close> that the nomenclature warning prints.
\<close>

definition sample_list_line ::
    "bool \<Rightarrow> id_list_state \<Rightarrow> sample_list_state \<Rightarrow> string \<Rightarrow> error + sample_list_state" where
  "sample_list_line require_inpred_nomenclature ids st line =
     (let line_s = py_split CHR 0x09 (py_strip line)
      in case py_get line_s 0 of
           Inl e \<Rightarrow> Inl e
         | Inr field0 \<Rightarrow>
             (case py_get field0 0 of
                Inl e \<Rightarrow> Inl e
              | Inr c0 \<Rightarrow>
                  if c0 = CHR ''#'' then
                    (let line_s = py_split CHR 0x09 (lstrip_hash (py_strip line))
                     in if ''sample_type'' \<notin> set line_s then Inl (Exit 18)
                        else if ''sample_output_ID'' \<notin> set line_s then Inl (Exit 18)
                        else Inr (st\<lparr>fi_sample_type := int (py_index line_s ''sample_type''),
                                     fi_sample_output_ID :=
                                       int (py_index line_s ''sample_output_ID''),
                                     sl_header_read := True\<rparr>))
                  else
                    (case py_get line_s (fi_sample_type st) of
                       Inl e \<Rightarrow> Inl e
                     | Inr sample_type \<Rightarrow>
                         (case py_get line_s (fi_sample_output_ID st) of
                            Inl e \<Rightarrow> Inl e
                          | Inr sample_id \<Rightarrow>
                              (let st1 = st\<lparr>sample_count := sample_count st + 1\<rparr>;
                                   matching_ids =
                                     find_ID_match sample_id (ID_prefix_list ids) ''prefix''
                               in if length matching_ids = 0 then
                                    Inr (st1\<lparr>sl_log := sl_log st1 @
                                           [LogInfo ('' - No ID match for sample sample '' @ dq
                                              @ sample_id @ dq @ ''.'')]\<rparr>)
                                  else if nomenclature_violation require_inpred_nomenclature
                                            sample_id then
                                    (case ID_string ids of
                                       None \<Rightarrow> Inl UnboundLocalError
                                     | Some ID \<Rightarrow>
                                         Inr (st1\<lparr>sl_log := sl_log st1 @
                                                [LogWarning
                                                   ('' - The following sample ID doesn't comply with''
                                                    @ '' the InPreD ID nomenclature: '' @ dq @ ID
                                                    @ dq @ ''). The sample will be ignored.'')]\<rparr>))
                                  else
                                    Inr (st1\<lparr>eligible_sample_dict :=
                                               AList.update sample_type sample_id
                                                 (eligible_sample_dict st1),
                                             sl_log := sl_log st1 @
                                               [LogInfo ('' - ID match for sample '' @ dq
                                                  @ sample_id @ dq @ '' ('' @ dq
                                                  @ hd matching_ids @ dq @ '').'')]\<rparr>))))))"

text \<open>
  What a line of the sample list is read as in state \<open>st\<close>: nothing for a header line (and
  for a line the reading fails on), the sample type and the sample ID for a data line.
\<close>

definition data_row :: "sample_list_state \<Rightarrow> string \<Rightarrow> (string \<times> string) option" where
  "data_row st line =
     (let line_s = py_split CHR 0x09 (py_strip line)
      in case py_get line_s 0 of
           Inl e \<Rightarrow> None
         | Inr field0 \<Rightarrow>
             (case py_get field0 0 of
                Inl e \<Rightarrow> None
              | Inr c0 \<Rightarrow>
                  if c0 = CHR ''#'' then None
                  else
                    (case py_get line_s (fi_sample_type st) of
                       Inl e \<Rightarrow> None
                     | Inr sample_type \<Rightarrow>
                         (case py_get line_s (fi_sample_output_ID st) of
                            Inl e \<Rightarrow> None
                          | Inr sample_id \<Rightarrow> Some (sample_type, sample_id)))))"

text \<open>A sample passes when its ID has a match and does not violate a required nomenclature.\<close>

definition sample_passes :: "bool \<Rightarrow> id_list_state \<Rightarrow> string \<Rightarrow> bool" where
  "sample_passes require_inpred_nomenclature ids sample_id =
     (id_eligible (ID_prefix_list ids) sample_id
      \<and> \<not> nomenclature_violation require_inpred_nomenclature sample_id)"

section \<open>TSOPPI: the patient directories\<close>

text \<open>
  What the file system gives for one path directly under the input directory: whether it is a
  directory, the lines of its \<open>sample_list.tsv\<close> when that is a file, and the recursive
  listing \<open>glob(L1_path + "/**")\<close>.
\<close>

record l1_entry =
  L1_path :: string
  L1_is_dir :: bool
  sample_list_file :: "string list option"
  L1_listing :: "string list"

definition in_dict :: "(string \<times> string) list \<Rightarrow> string \<Rightarrow> bool" where
  "in_dict d k = (map_of d k \<noteq> None)"

definition valid_pattern_categories :: "(string \<times> string) list \<Rightarrow> string list" where
  "valid_pattern_categories eligible =
     [''T_general'']
     @ (if in_dict eligible ''DNA_tumor'' then
          [''T_DNA_tumor'']
          @ (if in_dict eligible ''DNA_normal'' \<or> in_dict eligible ''RNA_tumor''
             then [''T_DNA_tumor_plus''] else [])
          @ (if in_dict eligible ''RNA_tumor'' then [''T_DNA_tumor_RNA_tumor''] else [])
        else [])
     @ (if in_dict eligible ''DNA_normal'' \<or> in_dict eligible ''DNA_tumor''
        then [''T_any_DNA''] else [])
     @ (if in_dict eligible ''DNA_normal'' then [''T_DNA_normal''] else [])
     @ (if in_dict eligible ''RNA_tumor'' then [''T_RNA_tumor''] else [])"

definition fill_placeholder ::
    "(string \<times> string) list \<Rightarrow> string \<Rightarrow> string \<Rightarrow> string \<Rightarrow> string" where
  "fill_placeholder eligible sample_type placeholder path_pattern =
     (case map_of eligible sample_type of
        None \<Rightarrow> path_pattern
      | Some sample_id \<Rightarrow> py_replace placeholder sample_id path_pattern)"

definition fill_placeholders :: "(string \<times> string) list \<Rightarrow> string \<Rightarrow> string" where
  "fill_placeholders eligible path_pattern =
     fill_placeholder eligible ''RNA_tumor'' ''${RT_SAMPLE_ID}''
       (fill_placeholder eligible ''DNA_normal'' ''${DN_SAMPLE_ID}''
          (fill_placeholder eligible ''DNA_tumor'' ''${DT_SAMPLE_ID}'' path_pattern))"

text \<open>One pattern of one category, for the directory \<open>L1\<close> of a patient.\<close>

definition tsoppi_pattern ::
    "(string \<Rightarrow> error + (string \<Rightarrow> bool)) \<Rightarrow> string \<Rightarrow> string \<Rightarrow> (string \<times> string) list \<Rightarrow>
     path_dict \<times> log_entry list \<Rightarrow> string \<times> int \<Rightarrow> error + path_dict \<times> log_entry list" where
  "tsoppi_pattern re_compile input_dir_cont_path L1 eligible st pattern_row =
     (case st of (available_L1, lg) \<Rightarrow>
      case pattern_row of (pattern_text, expected_matches) \<Rightarrow>
        (let path_pattern = fill_placeholders eligible pattern_text
         in case re_compile (L1 @ ''/'' @ path_pattern) of
              Inl e \<Rightarrow> Inl e
            | Inr path_regex \<Rightarrow>
                (case reclassify_matching_paths path_regex available_L1 input_dir_cont_path of
                   Inl e \<Rightarrow> Inl e
                 | Inr (extraction_matches, d) \<Rightarrow>
                     Inr (d,
                          if int extraction_matches < expected_matches
                          then lg @ [LogWarning
                                 ('' - Too few matches found for the following path pattern: ''
                                  @ dq @ input_dir_cont_path @ ''/'' @ path_pattern @ dq
                                  @ '' ('' @ str_int expected_matches @ '' matches expected, ''
                                  @ str_nat extraction_matches @ '' found).'')]
                          else lg))))"

text \<open>The loop over the lines of \<open>sample_list.tsv\<close>, after \<open>lg\<close> has been logged.\<close>

definition read_sample_list ::
    "bool \<Rightarrow> id_list_state \<Rightarrow> log_entry list \<Rightarrow> string list \<Rightarrow> error + sample_list_state" where
  "read_sample_list require_inpred_nomenclature ids lg sl_infile =
     for_each (sample_list_line require_inpred_nomenclature ids) (sample_list_start lg) sl_infile"

text \<open>What is logged for a directory before its sample list is read.\<close>

definition subdir_log :: "log_entry list \<Rightarrow> l1_entry \<Rightarrow> log_entry list" where
  "subdir_log lg entry =
     lg @ [LogInfo (''Checking sub-directory '' @ dq @ path_name (L1_path entry)
              @ dq @ '' for sample extraction eligibility...'')]"

definition sample_list_found_log :: "log_entry list \<Rightarrow> l1_entry \<Rightarrow> log_entry list" where
  "sample_list_found_log lg entry =
     subdir_log lg entry
     @ [LogInfo ('' - File '' @ dq @ ''sample_list.tsv'' @ dq
          @ '' found, its content will be checked for eligible samples.'')]"

definition not_all_eligible_message :: log_entry where
  "not_all_eligible_message =
     LogInfo ('' - Not all listed samples are eligible for''
        @ '' extraction. The directory will be skipped.'')"

text \<open>One path under the input directory.\<close>

definition tsoppi_subdir ::
    "(string \<Rightarrow> error + (string \<Rightarrow> bool)) \<Rightarrow> (string \<Rightarrow> (string \<times> int) list) \<Rightarrow> bool \<Rightarrow>
     id_list_state \<Rightarrow> string \<Rightarrow> path_dict \<times> log_entry list \<Rightarrow> l1_entry \<Rightarrow>
     error + path_dict \<times> log_entry list" where
  "tsoppi_subdir re_compile extraction_patterns require_inpred_nomenclature ids
       input_dir_cont_path st entry =
     (case st of (available_file_paths_dict, lg) \<Rightarrow>
      if L1_is_dir entry then
        (case sample_list_file entry of
           None \<Rightarrow>
             Inr (available_file_paths_dict,
                  subdir_log lg entry
                  @ [LogWarning ('' - No '' @ dq @ ''sample_list.tsv'' @ dq
                       @ '' file found. The directory will be skipped.'')])
         | Some sl_infile \<Rightarrow>
             (case read_sample_list require_inpred_nomenclature ids
                     (sample_list_found_log lg entry) sl_infile of
                Inl e \<Rightarrow> Inl e
              | Inr sl \<Rightarrow>
                  if length (eligible_sample_dict sl) \<noteq> sample_count sl then
                    Inr (dict_union available_file_paths_dict [(L1_path entry, ''S'')],
                         sl_log sl @ [not_all_eligible_message])
                  else
                    (case for_each
                            (\<lambda>st1 file_pattern_type.
                               for_each
                                 (tsoppi_pattern re_compile input_dir_cont_path
                                    (L1_path entry) (eligible_sample_dict sl))
                                 st1 (extraction_patterns file_pattern_type))
                            (initial_paths (L1_listing entry) (L1_path entry),
                             sl_log sl @ [LogInfo ('' - All listed samples are eligible for''
                               @ '' extraction. Processing the file list...'')])
                            (valid_pattern_categories (eligible_sample_dict sl)) of
                       Inl e \<Rightarrow> Inl e
                     | Inr (available_L1, lg2) \<Rightarrow>
                         Inr (dict_union available_file_paths_dict available_L1, lg2))))
      else Inr (dict_union available_file_paths_dict [(L1_path entry, ''S'')], lg))"

text \<open>The loop over the paths under the input directory.\<close>

definition tsoppi_classify ::
    "(string \<Rightarrow> error + (string \<Rightarrow> bool)) \<Rightarrow> (string \<Rightarrow> (string \<times> int) list) \<Rightarrow> bool \<Rightarrow>
     id_list_state \<Rightarrow> string \<Rightarrow> l1_entry list \<Rightarrow> error + path_dict \<times> log_entry list" where
  "tsoppi_classify re_compile extraction_patterns require_inpred_nomenclature ids
       input_dir_cont_path TSOPPI_L1_paths =
     for_each
       (tsoppi_subdir re_compile extraction_patterns require_inpred_nomenclature ids
          input_dir_cont_path)
       ([], [LogInfo ''Processing the specified TSOPPI directory data...'',
             LogInfo ''Checking the directory content...''])
       TSOPPI_L1_paths"

section \<open>The output files\<close>

record output_state =
  sfp_outfile :: "string list"
  efp_outfile :: "string list"
  skipped_file_count :: nat
  selected_file_count :: nat
  ignored_directory_count :: nat

definition output_start :: output_state where
  "output_start =
     \<lparr>sfp_outfile = [], efp_outfile = [], skipped_file_count = 0, selected_file_count = 0,
      ignored_directory_count = 0\<rparr>"

text \<open>
  One record of the dictionary: its path, made relative, goes to the skip list or to the
  export list, or is only counted.  The files are the texts written to them, in order.
\<close>

definition write_path_record ::
    "string \<Rightarrow> string \<Rightarrow> output_state \<Rightarrow> string \<times> string \<Rightarrow> error + output_state" where
  "write_path_record input_dir_cont_path outfile_dir_name st path_record =
     (case path_record of (fp_record, status_code) \<Rightarrow>
      case strip_path_prefix fp_record (input_dir_cont_path @ ''/'') of
        (prefix_present, fp_record_ps) \<Rightarrow>
          if \<not> prefix_present then Inl (Exit 19)
          else if status_code = ''S'' then
            Inr (st\<lparr>sfp_outfile := sfp_outfile st
                        @ [outfile_dir_name @ ''/'' @ fp_record_ps @ [CHR 0x0A]],
                    skipped_file_count := skipped_file_count st + 1\<rparr>)
          else if status_code = ''E'' then
            Inr (st\<lparr>efp_outfile := efp_outfile st
                        @ [outfile_dir_name @ ''/'' @ fp_record_ps @ [CHR 0x0A]],
                    selected_file_count := selected_file_count st + 1\<rparr>)
          else if status_code = ''I'' then
            Inr (st\<lparr>ignored_directory_count := ignored_directory_count st + 1\<rparr>)
          else Inl (Exit 20))"

definition write_path_lists :: "string \<Rightarrow> path_dict \<Rightarrow> error + output_state" where
  "write_path_lists input_dir_cont_path available_file_paths_dict =
     for_each (write_path_record input_dir_cont_path (path_name input_dir_cont_path))
       output_start available_file_paths_dict"

text \<open>The settings and output paths that the export script is written from.\<close>

record export_settings =
  parallel_export_and_md5sum :: bool
  archive_level_md5sum :: bool
  generate_export_script_only :: bool
  outfile_script_stdout_log_path :: string
  outfile_script_stderr_log_path :: string
  outfile_archive_path :: string
  outfile_dir_parent_path :: string
  outfile_file_path_list :: string
  outfile_password_path :: string
  outfile_archive_level_md5_path :: string
  outfile_file_level_md5_path :: string

definition nl :: string where
  "nl = [CHR 0x0A]"

definition export_script :: "export_settings \<Rightarrow> string list" where
  "export_script cfg =
     (let optional_ampersand = (if parallel_export_and_md5sum cfg then '' &'' else [])
      in [''#!/bin/bash'' @ nl,
          ''date'' @ nl,
          ''echo '' @ dq @ ''setting up dedicated stdout and stderr log files..'' @ dq @ nl,
          ''exec >  >(tee -i '' @ outfile_script_stdout_log_path cfg @ '')'' @ nl,
          ''exec 2> >(tee -i '' @ outfile_script_stderr_log_path cfg @ '' >&2)'' @ nl,
          ''sleep 2'' @ nl,
          ''echo '' @ dq @ ''packaging and encrypting selected files..'' @ dq @ nl,
          ''if [ -f '' @ outfile_archive_path cfg @ '' ]; then rm '' @ outfile_archive_path cfg
            @ '' ; fi'' @ nl,
          ''tar -C '' @ outfile_dir_parent_path cfg @ '' -T '' @ outfile_file_path_list cfg
            @ '' -c | gpg -c --passphrase-file '' @ outfile_password_path cfg
            @ '' --batch --cipher-algo aes256 -o '' @ outfile_archive_path cfg
            @ optional_ampersand @ nl]
         @ (if archive_level_md5sum cfg then
              [''echo '' @ dq @ ''creating archive-level md5 checksums..'' @ dq @ nl,
               ''md5sum '' @ outfile_archive_path cfg @ '' > ''
                 @ outfile_archive_level_md5_path cfg @ optional_ampersand @ nl]
            else
              [''echo '' @ dq @ ''creating file-level md5 checksums..'' @ dq @ nl,
               ''cd '' @ outfile_dir_parent_path cfg @ nl,
               ''cat '' @ outfile_file_path_list cfg
                 @ '' | while read path_line; do if [ -f ${path_line} ]; then md5sum ${path_line}; fi; done > ''
                 @ outfile_file_level_md5_path cfg @ optional_ampersand @ nl,
               ''cd - > /dev/null'' @ nl])
         @ (if parallel_export_and_md5sum cfg then [''wait'' @ nl] else [])
         @ [''date'' @ nl])"

text \<open>
  How a run that reaches the output ends: the two path lists, the export script when one
  is written, whether the script is run, the messages logged from here on, and the exit
  status.
\<close>

record run_end =
  skipped_file_path_list :: "string list"
  export_file_path_list :: "string list"
  export_script_file :: "string list option"
  export_script_run :: bool
  end_log :: "log_entry list"
  exit_status :: nat

definition create_output_files :: "export_settings \<Rightarrow> string \<Rightarrow> path_dict \<Rightarrow> error + run_end" where
  "create_output_files cfg input_dir_cont_path available_file_paths_dict =
     (case write_path_lists input_dir_cont_path available_file_paths_dict of
        Inl e \<Rightarrow> Inl e
      | Inr st \<Rightarrow>
          if selected_file_count st > 0 then
            Inr \<lparr>skipped_file_path_list = sfp_outfile st,
                 export_file_path_list = efp_outfile st,
                 export_script_file = Some (export_script cfg),
                 export_script_run = (\<not> generate_export_script_only cfg),
                 end_log = [LogInfo ''Creating output files...'']
                   @ (if \<not> generate_export_script_only cfg
                      then [LogInfo ''Running the data extraction, packaging and ecryption...'']
                      else []),
                 exit_status = 0\<rparr>
          else
            Inr \<lparr>skipped_file_path_list = sfp_outfile st,
                 export_file_path_list = efp_outfile st,
                 export_script_file = None,
                 export_script_run = False,
                 end_log = [LogInfo ''Creating output files...'',
                            LogInfo ''No files qualified for extraction. Exiting.''],
                 exit_status = 0\<rparr>)"

text \<open>
  What the loop over the dictionary writes for a path, and the paths that have a given
  status code, in the order of the dictionary.
\<close>

definition output_line :: "string \<Rightarrow> string \<Rightarrow> string" where
  "output_line input_dir_cont_path fp_record =
     path_name input_dir_cont_path @ ''/''
     @ drop (length (input_dir_cont_path @ ''/'')) fp_record @ [CHR 0x0A]"

definition paths_with_status :: "string \<Rightarrow> path_dict \<Rightarrow> string list" where
  "paths_with_status status_code d = map fst (filter (\<lambda>path_record. snd path_record = status_code) d)"

section \<open>The walk over the ancestors, by itself\<close>

text \<open>
  Which directories the \<open>while\<close> loop of \<open>reclassify_matching_paths\<close> sets to \<open>I\<close>
  depends on the keys of the dictionary only, not on the status codes: \<open>marked_parents\<close>
  lists them, from parent \<open>p\<close> upwards, for the set \<open>K\<close> of keys; \<open>marked_above\<close> does so
  for a matching path, and \<open>marks\<close> is their set.  \<open>set_all v ks\<close> assigns \<open>v\<close> to the keys
  \<open>ks\<close>, one after the other.
\<close>

function marked_parents :: "string \<Rightarrow> string \<Rightarrow> string set \<Rightarrow> error + string list" where
  "marked_parents p b K =
     (if p \<noteq> b \<and> p \<in> K then
        (case path_parent p of
           Inl e \<Rightarrow> Inl e
         | Inr q \<Rightarrow> (case marked_parents q b K of Inl e \<Rightarrow> Inl e | Inr vs \<Rightarrow> Inr (p # vs)))
      else Inr [])"
  by pat_completeness auto
termination
  by (relation "measure (\<lambda>(p, b, K). path_size p)") (auto dest: path_parent_smaller)

declare marked_parents.simps [simp del]

definition marked_above :: "string \<Rightarrow> string \<Rightarrow> string set \<Rightarrow> error + string list" where
  "marked_above q b K =
     (case path_parent q of Inl e \<Rightarrow> Inl e | Inr p \<Rightarrow> marked_parents p b K)"

definition marks :: "string \<Rightarrow> string \<Rightarrow> string set \<Rightarrow> string set" where
  "marks q b K = (case marked_above q b K of Inl e \<Rightarrow> {} | Inr vs \<Rightarrow> set vs)"

definition set_all :: "string \<Rightarrow> string list \<Rightarrow> path_dict \<Rightarrow> path_dict" where
  "set_all v ks d = fold (\<lambda>k. AList.update k v) ks d"

section \<open>Allow-list matching\<close>

text \<open>
  C4, as amended.  A sample ID is eligible if and only if at least one entry of the
  allow-list is a prefix of the sample ID (the entry is the prefix, the sample ID the longer
  text); so sample \<open>SID1\<close> is eligible for the allow-list entry \<open>SID\<close>.
\<close>

theorem find_ID_match_entry_is_prefix:
  "(id_eligible approved_ids sample_id \<longleftrightarrow> (\<exists>e \<in> set approved_ids. prefix e sample_id))
   \<and> id_eligible [''SID''] ''SID1''"
  by (auto simp: id_eligible_def find_ID_match_def filter_empty_conv)

theorem find_ID_match_entry_is_prefix_witness:
  "id_eligible [''IPD'', ''SID''] ''SID1'' \<and> prefix ''SID'' ''SID1''"
  using find_ID_match_entry_is_prefix [of "[''IPD'', ''SID'']" "''SID1''"] by simp

text \<open>
  Against C4 as it is stated.
  The rule as the specification words it (the sample ID a prefix of an entry) fails on
  the specification's own scenario: \<open>SID1\<close> is eligible and is not a prefix of the
  one entry \<open>SID\<close>.
\<close>

theorem sample_prefix_of_entry_counterexample:
  "id_eligible [''SID''] ''SID1'' \<and> \<not> prefix ''SID1'' ''SID''"
  by (simp add: id_eligible_def find_ID_match_def)

section \<open>The nomenclature check\<close>

lemma rx_seq_step:
  "t \<in> set (rx_rest r s) \<Longrightarrow> u \<in> set (rx_rest (rx_seq rs) t) \<Longrightarrow>
   u \<in> set (rx_rest (rx_seq (r # rs)) s)"
  by (simp add: rx_seq_def) blast

lemma rx_rest_Cls: "x \<in> set cs \<Longrightarrow> t \<in> set (rx_rest (Cls cs) (x # t))"
  by simp

lemma rx_rest_Lit: "t \<in> set (rx_rest (Lit c) (c # t))"
  by simp

lemma rx_rest_str: "t \<in> set (rx_rest (rx_str w) (w @ t))"
  by (induction w) (simp_all add: rx_str_def rx_seq_def)

lemma rx_rest_digits:
  "set ds \<subseteq> set ''0123456789'' \<Longrightarrow>
   t \<in> set (rx_rest (rx_rep (length ds) rx_digit) (ds @ t))"
proof (induction ds)
  case Nil
  then show ?case by (simp add: rx_rep_def rx_seq_def)
next
  case (Cons d ds)
  have "ds @ t \<in> set (rx_rest rx_digit ((d # ds) @ t))"
    using Cons.prems by (simp add: rx_digit_def)
  moreover have "t \<in> set (rx_rest (rx_seq (replicate (length ds) rx_digit)) (ds @ t))"
    using Cons by (simp add: rx_rep_def)
  ultimately have
    "t \<in> set (rx_rest (rx_seq (rx_digit # replicate (length ds) rx_digit)) ((d # ds) @ t))"
    by (rule rx_seq_step)
  then show ?case by (simp add: rx_rep_def)
qed

lemma rx_rest_run:
  assumes "m \<in> set [''01'', ''02'', ''03'', ''04'', ''05'', ''06'', ''07'', ''50'', ''51'']"
  shows "t \<in> set (rx_rest (Alt (Cat (Lit CHR ''0'') (Cls ''1234567''))
                              (Alt (rx_str ''50'') (rx_str ''51''))) (m @ t))"
proof -
  have "m = ''01'' \<or> m = ''02'' \<or> m = ''03'' \<or> m = ''04'' \<or> m = ''05'' \<or> m = ''06''
      \<or> m = ''07'' \<or> m = ''50'' \<or> m = ''51''"
    using assms by simp
  then show ?thesis
    by (elim disjE) (simp_all add: rx_str_def rx_seq_def)
qed

lemma rx_rest_serial:
  assumes "(n = [g, h] \<and> g \<in> set ''012'' \<and> h \<in> set ''0123456789'') \<or> n = ''30'' \<or> n = ''XX''"
  shows "[] \<in> set (rx_rest (Alt (Cat (Cls ''012'') rx_digit)
                               (Alt (rx_str ''30'') (rx_str ''XX''))) n)"
proof -
  consider "n = [g, h]" "g \<in> set ''012''" "h \<in> set ''0123456789''" | "n = ''30''" | "n = ''XX''"
    using assms by blast
  then show ?thesis
  proof cases
    case 1
    have "[h] \<in> set (rx_rest (Cls ''012'') (g # [h]))"
      using 1(2) by (rule rx_rest_Cls)
    moreover have "[] \<in> set (rx_rest rx_digit [h])"
      unfolding rx_digit_def using 1(3) by (rule rx_rest_Cls)
    ultimately have "[] \<in> set (rx_rest (Cat (Cls ''012'') rx_digit) n)"
      using 1(1) by auto
    then show ?thesis by simp
  next
    case 2
    then show ?thesis by (simp add: rx_str_def rx_seq_def)
  next
    case 3
    then show ?thesis by (simp add: rx_str_def rx_seq_def)
  qed
qed

lemma rx_rest_no_IP: "\<not> prefix ''IP'' s \<Longrightarrow> rx_rest (rx_str ''IP'') s = []"
  by (cases s) (auto simp add: rx_str_def rx_seq_def split: list.splits)

lemma is_InPreD_ID_needs_IP: "\<not> prefix ''IP'' s \<Longrightarrow> \<not> is_InPreD_ID s"
  using rx_rest_no_IP[of s]
  by (simp add: is_InPreD_ID_def re_match_dollar_def id_regex_def rx_seq_def[of "_ # _"])

lemma is_InPreD_ID_shape:
  assumes a: "a \<in> set ''ADHO''" and ds: "set ds \<subseteq> set ''0123456789''" "length ds = 4"
    and c: "c \<in> set ''CDR''"
    and m: "m \<in> set [''01'', ''02'', ''03'', ''04'', ''05'', ''06'', ''07'', ''50'', ''51'']"
    and t: "t \<in> set ''ACDdEeLMNPpRrTX''" and es: "set es \<subseteq> set ''0123456789''" "length es = 2"
    and k: "k \<in> set ''ABCEFMS''"
    and n: "(n = [g, h] \<and> g \<in> set ''012'' \<and> h \<in> set ''0123456789'') \<or> n = ''30'' \<or> n = ''XX''"
  shows "is_InPreD_ID
           (''IP'' @ a # ds @ CHR ''-'' # c # m @ CHR ''-'' # t # es @ CHR ''-'' # k # n)"
proof -
  have d4: "rx_rep 4 rx_digit = rx_rep (length ds) rx_digit"
    and d2: "rx_rep 2 rx_digit = rx_rep (length es) rx_digit"
    using ds es by simp_all
  have "[] \<in> set (rx_rest id_regex
           (''IP'' @ a # ds @ CHR ''-'' # c # m @ CHR ''-'' # t # es @ CHR ''-'' # k # n))"
    unfolding id_regex_def d4 d2
    apply (rule rx_seq_step[OF rx_rest_str])
    apply (rule rx_seq_step[OF rx_rest_Cls[OF a]])
    apply (rule rx_seq_step[OF rx_rest_digits[OF ds(1)]])
    apply (rule rx_seq_step[OF rx_rest_Lit])
    apply (rule rx_seq_step[OF rx_rest_Cls[OF c]])
    apply (rule rx_seq_step[OF rx_rest_run[OF m]])
    apply (rule rx_seq_step[OF rx_rest_Lit])
    apply (rule rx_seq_step[OF rx_rest_Cls[OF t]])
    apply (rule rx_seq_step[OF rx_rest_digits[OF es(1)]])
    apply (rule rx_seq_step[OF rx_rest_Lit])
    apply (rule rx_seq_step[OF rx_rest_Cls[OF k]])
    apply (rule rx_seq_step[OF rx_rest_serial[OF n]])
    apply (simp add: rx_seq_def)
    done
  then show ?thesis
    unfolding is_InPreD_ID_def re_match_dollar_def list_ex_iff
    by (rule rev_bexI) (simp add: rx_dollar_def)
qed

text \<open>
  C8.  The nomenclature check accepts \<open>IPD0001-R01-T01-S01\<close> and every text of the shape
  the pattern describes: \<open>IP\<close>, one of \<open>ADHO\<close>, four digits, a dash, one of \<open>CDR\<close>, one
  of \<open>01\<close> to \<open>07\<close>, \<open>50\<close>, \<open>51\<close>, a dash, a letter of \<open>ACDdEeLMNPpRrTX\<close>, two digits, a
  dash, one of \<open>ABCEFMS\<close> and one of \<open>00\<close> to \<open>29\<close>, \<open>30\<close>, \<open>XX\<close>.  It rejects every text
  that does not start with \<open>IP\<close>.  The check takes the ID alone; the flag that requires the
  nomenclature only decides whether a rejected ID is excluded: without the flag no ID is
  excluded, with it exactly the rejected ones are.
\<close>

theorem is_InPreD_ID_accepts_shape_rejects_missing_tag:
  "is_InPreD_ID ''IPD0001-R01-T01-S01''
   \<and> (a \<in> set ''ADHO'' \<and> set ds \<subseteq> set ''0123456789'' \<and> length ds = 4 \<and> c \<in> set ''CDR''
      \<and> m \<in> set [''01'', ''02'', ''03'', ''04'', ''05'', ''06'', ''07'', ''50'', ''51'']
      \<and> t \<in> set ''ACDdEeLMNPpRrTX'' \<and> set es \<subseteq> set ''0123456789'' \<and> length es = 2
      \<and> k \<in> set ''ABCEFMS''
      \<and> ((n = [g, h] \<and> g \<in> set ''012'' \<and> h \<in> set ''0123456789'') \<or> n = ''30'' \<or> n = ''XX'')
      \<longrightarrow> is_InPreD_ID
            (''IP'' @ a # ds @ CHR ''-'' # c # m @ CHR ''-'' # t # es @ CHR ''-'' # k # n))
   \<and> (\<not> prefix ''IP'' s \<longrightarrow> \<not> is_InPreD_ID s)
   \<and> \<not> nomenclature_violation False s
   \<and> (nomenclature_violation True s \<longleftrightarrow> \<not> is_InPreD_ID s)"
proof (intro conjI impI)
  show "is_InPreD_ID ''IPD0001-R01-T01-S01''"
    by code_simp
next
  assume "a \<in> set ''ADHO'' \<and> set ds \<subseteq> set ''0123456789'' \<and> length ds = 4 \<and> c \<in> set ''CDR''
      \<and> m \<in> set [''01'', ''02'', ''03'', ''04'', ''05'', ''06'', ''07'', ''50'', ''51'']
      \<and> t \<in> set ''ACDdEeLMNPpRrTX'' \<and> set es \<subseteq> set ''0123456789'' \<and> length es = 2
      \<and> k \<in> set ''ABCEFMS''
      \<and> ((n = [g, h] \<and> g \<in> set ''012'' \<and> h \<in> set ''0123456789'') \<or> n = ''30'' \<or> n = ''XX'')"
  then show "is_InPreD_ID
      (''IP'' @ a # ds @ CHR ''-'' # c # m @ CHR ''-'' # t # es @ CHR ''-'' # k # n)"
    by (intro is_InPreD_ID_shape) blast+
next
  assume "\<not> prefix ''IP'' s"
  then show "\<not> is_InPreD_ID s" by (rule is_InPreD_ID_needs_IP)
qed (simp_all add: nomenclature_violation_def)

theorem is_InPreD_ID_accepts_shape_rejects_missing_tag_witness:
  "is_InPreD_ID ''IPA1234-C50-d99-MXX'' \<and> \<not> is_InPreD_ID ''D0001-R01-T01-S01''
   \<and> nomenclature_violation True ''D0001-R01-T01-S01''"
  using is_InPreD_ID_accepts_shape_rejects_missing_tag
    [of "CHR ''A''" "''1234''" "CHR ''C''" "''50''" "CHR ''d''" "''99''" "CHR ''M''" "''XX''"
        "CHR ''0''" "CHR ''0''" "''D0001-R01-T01-S01''"]
  by simp

section \<open>Entries of the ID list that are ignored\<close>

text \<open>
  C7, as amended.  Once the header of the ID list has been read, a line whose method and
  ID fields can be read is treated by its ID first: an empty ID is ignored with a warning,
  the ID \<open>.\<close> is ignored without any message, and any other ID is ignored with a warning
  when its matching method is not \<open>prefix\<close> and loaded when it is.  In each case the loop
  goes on with the next line.
\<close>

theorem id_list_line_ignored_entries:
  assumes hdr: "id_header_read st"
    and flds: "line_s = py_split CHR 0x09 (py_strip line)" "2 \<le> length line_s"
    and mm: "py_get line_s (fi_matching_method st) = Inr matching_method"
    and tid: "py_get line_s (fi_target_ID st) = Inr ID"
  shows "for_each id_list_line st (line # rest) =
     for_each id_list_line
       (if ID = '''' then
          st\<lparr>ID_string := Some ID,
             id_log := id_log st @
               [LogWarning ('' - Unsupported ID string (encountered ID value: ''
                  @ dq @ ID @ dq @ ''). The ID will be ignored.'')]\<rparr>
        else if ID = ''.'' then st\<lparr>ID_string := Some ID\<rparr>
        else if matching_method \<noteq> ''prefix'' then
          st\<lparr>ID_string := Some ID,
             id_log := id_log st @
               [LogWarning ('' - Unsupported ID matching method keyword encountered''
                  @ '' (method keyword: '' @ dq @ matching_method @ dq
                  @ '', ID: '' @ dq @ ID @ dq @ ''). The ID will be ignored.'')]\<rparr>
        else st\<lparr>ID_string := Some ID, ID_prefix_list := ID_prefix_list st @ [ID]\<rparr>)
       rest"
  using assms by (simp add: id_list_line_def Let_def)

theorem id_list_line_ignored_entries_witness:
  "for_each id_list_line
     \<lparr>id_header_read = True, fi_matching_method = 0, fi_target_ID = 1,
      ID_prefix_list = [], ID_string = None, id_log = []\<rparr>
     [''exact'' @ [CHR 0x09] @ ''X1'' @ [CHR 0x0A]]
   = Inr \<lparr>id_header_read = True, fi_matching_method = 0, fi_target_ID = 1,
      ID_prefix_list = [], ID_string = Some ''X1'',
      id_log = [LogWarning ('' - Unsupported ID matching method keyword encountered''
                  @ '' (method keyword: '' @ dq @ ''exact'' @ dq
                  @ '', ID: '' @ dq @ ''X1'' @ dq @ ''). The ID will be ignored.'')]\<rparr>"
proof -
  let ?st = "\<lparr>id_header_read = True, fi_matching_method = 0, fi_target_ID = 1,
      ID_prefix_list = [], ID_string = None, id_log = []\<rparr>"
  let ?line = "''exact'' @ [CHR 0x09] @ ''X1'' @ [CHR 0x0A]"
  have sp: "py_split CHR 0x09 (py_strip ?line) = [''exact'', ''X1'']" by code_simp
  have h1: "id_header_read ?st" by simp
  have h2: "2 \<le> length [''exact'', ''X1'']" by simp
  have h3: "py_get [''exact'', ''X1''] (fi_matching_method ?st) = Inr ''exact''" by (simp add: py_get_def)
  have h4: "py_get [''exact'', ''X1''] (fi_target_ID ?st) = Inr ''X1''" by (simp add: py_get_def)
  show ?thesis
    using id_list_line_ignored_entries[OF h1 sp[symmetric] h2 h3 h4, of "[]"] by simp
qed

text \<open>
  Against C7 as it is stated.
  An entry with the ID \<open>.\<close> is ignored without a warning: after the header and that
  entry the log holds the two messages that frame the loading, and nothing else.
\<close>

theorem dot_ID_without_warning_counterexample:
  "load_ID_list [''matching_method'' @ [CHR 0x09] @ ''target_ID'' @ [CHR 0x0A],
                 ''prefix'' @ [CHR 0x09] @ ''.'' @ [CHR 0x0A]]
   = Inr \<lparr>id_header_read = True, fi_matching_method = 0, fi_target_ID = 1,
           ID_prefix_list = [], ID_string = Some ''.'',
           id_log = [LogInfo ''Loading the supplied IDs...'',
                     LogInfo '' - ID loading done (0 IDs loaded).'']\<rparr>"
  by code_simp

section \<open>Loops that stop at the first failure\<close>

lemma for_each_append:
  "for_each f s (xs @ ys) = (case for_each f s xs of Inl e \<Rightarrow> Inl e | Inr s' \<Rightarrow> for_each f s' ys)"
  by (induction xs arbitrary: s) (auto split: sum.splits)

lemma for_each_nth:
  assumes "for_each f s xs = Inr s'" and "i < length xs"
  obtains si si' where "for_each f s (take i xs) = Inr si" and "f si (xs ! i) = Inr si'"
    and "for_each f si' (drop (Suc i) xs) = Inr s'"
proof -
  have "xs = take i xs @ (xs ! i) # drop (Suc i) xs"
    using assms(2) by (simp add: id_take_nth_drop)
  then have "for_each f s (take i xs @ (xs ! i) # drop (Suc i) xs) = Inr s'"
    using assms(1) by simp
  then show ?thesis
    using that by (auto simp: for_each_append split: sum.splits)
qed

section \<open>A blank line in the sample list\<close>

lemma py_strip_blank: "list_all py_isspace line \<Longrightarrow> py_strip line = []"
  by (auto simp: py_strip_def py_lstrip_def py_rstrip_def list_all_iff dest: set_dropWhileD)

lemma sample_list_line_blank:
  "list_all py_isspace line \<Longrightarrow> sample_list_line req ids st line = Inl IndexError"
  by (simp add: sample_list_line_def py_strip_blank py_get_def)

text \<open>
  C10.  A line of \<open>sample_list.tsv\<close> that is empty or holds white space only makes the
  reading of the sample list raise \<open>IndexError\<close>: the stripped line splits into one empty
  field, and the test for the \<open>#\<close> of a header takes the first character of that field.
  When the lines before it are read without failure, the reading of the file ends in
  \<open>IndexError\<close>, and so does the loop over the directories, of which nothing catches it:
  no exit code of the program's own, and no warning to go on from.
\<close>

theorem blank_sample_list_line_raises_IndexError:
  assumes blank: "list_all py_isspace line"
    and before: "read_sample_list req ids (sample_list_found_log lg entry) pre = Inr st"
    and dir: "L1_is_dir entry"
    and sl: "sample_list_file entry = Some (pre @ line # post)"
  shows "sample_list_line req ids st line = Inl IndexError
    \<and> read_sample_list req ids (sample_list_found_log lg entry) (pre @ line # post)
        = Inl IndexError
    \<and> for_each (tsoppi_subdir re_compile extraction_patterns req ids input_dir_cont_path)
        (available, lg) (entry # others) = Inl IndexError"
proof -
  have l: "sample_list_line req ids st line = Inl IndexError"
    using blank by (rule sample_list_line_blank)
  have r: "read_sample_list req ids (sample_list_found_log lg entry) (pre @ line # post)
        = Inl IndexError"
    using before l by (simp add: read_sample_list_def for_each_append)
  have "tsoppi_subdir re_compile extraction_patterns req ids input_dir_cont_path
          (available, lg) entry = Inl IndexError"
    using dir sl r by (simp add: tsoppi_subdir_def)
  then show ?thesis using l r by simp
qed


theorem blank_sample_list_line_raises_IndexError_witness:
  "for_each (tsoppi_subdir (\<lambda>r. Inl RegexError) (\<lambda>c. []) False id_list_start ''/in'')
     ([], [])
     [\<lparr>L1_path = ''/in/P1'', L1_is_dir = True,
       sample_list_file = Some [''#sample_type'' @ [CHR 0x09] @ ''sample_output_ID'' @ [CHR 0x0A],
                                [CHR 0x0A],
                                ''DNA_tumor'' @ [CHR 0x09] @ ''IPD0001'' @ [CHR 0x0A]],
       L1_listing = []\<rparr>]
   = Inl IndexError"
proof -
  let ?entry = "\<lparr>L1_path = ''/in/P1'', L1_is_dir = True,
       sample_list_file = Some [''#sample_type'' @ [CHR 0x09] @ ''sample_output_ID'' @ [CHR 0x0A],
                                [CHR 0x0A],
                                ''DNA_tumor'' @ [CHR 0x09] @ ''IPD0001'' @ [CHR 0x0A]],
       L1_listing = []\<rparr>"
  have h1: "list_all py_isspace [CHR 0x0A]" by code_simp
  have h2: "read_sample_list False id_list_start (sample_list_found_log [] ?entry)
              [''#sample_type'' @ [CHR 0x09] @ ''sample_output_ID'' @ [CHR 0x0A]]
            = Inr \<lparr>sl_header_read = True, fi_sample_type = 0, fi_sample_output_ID = 1,
                eligible_sample_dict = [], sample_count = 0,
                sl_log = sample_list_found_log [] ?entry\<rparr>"
    by code_simp
  have h3: "L1_is_dir ?entry" by simp
  have h4: "sample_list_file ?entry
            = Some ([''#sample_type'' @ [CHR 0x09] @ ''sample_output_ID'' @ [CHR 0x0A]]
                @ [CHR 0x0A] # [''DNA_tumor'' @ [CHR 0x09] @ ''IPD0001'' @ [CHR 0x0A]])"
    by simp
  show ?thesis
    using blank_sample_list_line_raises_IndexError[OF h1 h2 h3 h4, of "\<lambda>r. Inl RegexError"
        "\<lambda>c. []" "''/in''" "[]" "[]"]
    by simp
qed

section \<open>A patient directory is exported whole or not at all\<close>

lemma length_AList_update:
  "length (AList.update k v al) = (if k \<in> fst ` set al then length al else Suc (length al))"
  by (induction al) auto

lemma sample_list_line_header:
  assumes "data_row st line = None" and "sample_list_line req ids st line = Inr st'"
  shows "eligible_sample_dict st' = eligible_sample_dict st \<and> sample_count st' = sample_count st"
  using assms
  by (auto simp: data_row_def sample_list_line_def Let_def split: sum.splits if_splits)

lemma sample_list_line_data:
  assumes "data_row st line = Some (sample_type, sample_id)"
    and "sample_list_line req ids st line = Inr st'"
  shows "sample_count st' = Suc (sample_count st)
    \<and> eligible_sample_dict st' =
        (if sample_passes req ids sample_id
         then AList.update sample_type sample_id (eligible_sample_dict st)
         else eligible_sample_dict st)"
  using assms
  by (auto simp: data_row_def sample_list_line_def Let_def sample_passes_def id_eligible_def
      split: sum.splits if_splits option.splits)

lemma sample_list_line_slack:
  assumes "sample_list_line req ids st line = Inr st'"
    and "length (eligible_sample_dict st) + k \<le> sample_count st"
  shows "length (eligible_sample_dict st') + k \<le> sample_count st'"
proof (cases "data_row st line")
  case None
  then show ?thesis using assms sample_list_line_header by simp
next
  case (Some row)
  obtain t s where "row = (t, s)" by (cases row)
  then show ?thesis
    using Some assms sample_list_line_data[of st line t s req ids st']
    by (auto simp: length_AList_update)
qed

lemma sample_list_line_keys:
  assumes "sample_list_line req ids st line = Inr st'"
  shows "fst ` set (eligible_sample_dict st) \<subseteq> fst ` set (eligible_sample_dict st')"
proof (cases "data_row st line")
  case None
  then show ?thesis using assms sample_list_line_header by simp
next
  case (Some row)
  obtain t s where "row = (t, s)" by (cases row)
  then show ?thesis
    using Some assms sample_list_line_data[of st line t s req ids st']
    by (auto simp: dom_update)
qed

lemma sample_lines_slack:
  assumes "for_each (sample_list_line req ids) st ls = Inr st'"
    and "length (eligible_sample_dict st) + k \<le> sample_count st"
  shows "length (eligible_sample_dict st') + k \<le> sample_count st'"
  using assms
proof (induction ls arbitrary: st)
  case Nil
  then show ?case by simp
next
  case (Cons l ls)
  then show ?case
    by (auto split: sum.splits dest: sample_list_line_slack)
qed

lemma sample_lines_keys:
  assumes "for_each (sample_list_line req ids) st ls = Inr st'"
  shows "fst ` set (eligible_sample_dict st) \<subseteq> fst ` set (eligible_sample_dict st')"
  using assms
proof (induction ls arbitrary: st)
  case Nil
  then show ?case by simp
next
  case (Cons l ls)
  then obtain st1 where 1: "sample_list_line req ids st l = Inr st1"
    and 2: "for_each (sample_list_line req ids) st1 ls = Inr st'"
    by (auto split: sum.splits)
  show ?case
    using sample_list_line_keys[OF 1] Cons.IH[OF 2] by blast
qed

lemma failing_row_slack:
  assumes "data_row st line = Some (sample_type, sample_id)"
    and "\<not> sample_passes req ids sample_id"
    and "sample_list_line req ids st line = Inr st'"
    and "length (eligible_sample_dict st) \<le> sample_count st"
  shows "length (eligible_sample_dict st') + 1 \<le> sample_count st'"
  using assms sample_list_line_data[of st line sample_type sample_id req ids st'] by simp

lemma repeated_type_slack:
  assumes "data_row st line = Some (sample_type, sample_id)"
    and "sample_type \<in> fst ` set (eligible_sample_dict st)"
    and "sample_list_line req ids st line = Inr st'"
    and "length (eligible_sample_dict st) \<le> sample_count st"
  shows "length (eligible_sample_dict st') + 1 \<le> sample_count st'"
  using assms sample_list_line_data[of st line sample_type sample_id req ids st']
  by (simp add: length_AList_update)

lemma first_type_slack_or_key:
  assumes "data_row st line = Some (sample_type, sample_id)"
    and "sample_list_line req ids st line = Inr st'"
    and "length (eligible_sample_dict st) \<le> sample_count st"
  shows "length (eligible_sample_dict st') + 1 \<le> sample_count st'
    \<or> sample_type \<in> fst ` set (eligible_sample_dict st')"
  using assms sample_list_line_data[of st line sample_type sample_id req ids st']
  by (auto simp: dom_update)

lemma failing_row_count:
  assumes run: "read_sample_list req ids lg sl_infile = Inr sl"
    and i: "i < length sl_infile"
    and si: "read_sample_list req ids lg (take i sl_infile) = Inr si"
    and row: "data_row si (sl_infile ! i) = Some (sample_type, sample_id)"
    and fail: "\<not> sample_passes req ids sample_id"
  shows "length (eligible_sample_dict sl) < sample_count sl"
proof -
  let ?f = "sample_list_line req ids"
  obtain ti ti' where a: "for_each ?f (sample_list_start lg) (take i sl_infile) = Inr ti"
    and b: "?f ti (sl_infile ! i) = Inr ti'"
    and c: "for_each ?f ti' (drop (Suc i) sl_infile) = Inr sl"
    using for_each_nth[OF run[unfolded read_sample_list_def] i] by blast
  have ti: "ti = si" using a si by (simp add: read_sample_list_def)
  have "length (eligible_sample_dict si) + 0 \<le> sample_count si"
    using sample_lines_slack[OF si[unfolded read_sample_list_def], of 0]
    by (simp add: sample_list_start_def)
  then have "length (eligible_sample_dict ti') + 1 \<le> sample_count ti'"
    using failing_row_slack[OF row fail] b ti by simp
  then have "length (eligible_sample_dict sl) + 1 \<le> sample_count sl"
    using sample_lines_slack[OF c] by blast
  then show ?thesis by simp
qed

lemma repeated_type_count:
  assumes run: "read_sample_list req ids lg sl_infile = Inr sl"
    and ij: "i < j" "j < length sl_infile"
    and si: "read_sample_list req ids lg (take i sl_infile) = Inr si"
    and sj: "read_sample_list req ids lg (take j sl_infile) = Inr sj"
    and rowi: "data_row si (sl_infile ! i) = Some (sample_type, id_i)"
    and rowj: "data_row sj (sl_infile ! j) = Some (sample_type, id_j)"
  shows "length (eligible_sample_dict sl) < sample_count sl"
proof -
  let ?f = "sample_list_line req ids"
  let ?tj = "take j sl_infile"
  have inv: "\<And>ls st. for_each ?f (sample_list_start lg) ls = Inr st \<Longrightarrow>
      length (eligible_sample_dict st) \<le> sample_count st"
    using sample_lines_slack[of req ids "sample_list_start lg" _ _ 0]
    by (simp add: sample_list_start_def)
  obtain tj tj' where a: "for_each ?f (sample_list_start lg) ?tj = Inr tj"
    and b: "?f tj (sl_infile ! j) = Inr tj'"
    and c: "for_each ?f tj' (drop (Suc j) sl_infile) = Inr sl"
    using for_each_nth[OF run[unfolded read_sample_list_def] ij(2)] by blast
  have tj: "tj = sj" using a sj by (simp add: read_sample_list_def)
  have i': "i < length ?tj" using ij by simp
  obtain ui ui' where d: "for_each ?f (sample_list_start lg) (take i ?tj) = Inr ui"
    and e: "?f ui (?tj ! i) = Inr ui'"
    and f: "for_each ?f ui' (drop (Suc i) ?tj) = Inr sj"
    using for_each_nth[OF sj[unfolded read_sample_list_def] i'] by blast
  have tk: "take i ?tj = take i sl_infile" and nth: "?tj ! i = sl_infile ! i"
    using ij by (simp_all add: min_def)
  have ui: "ui = si" using d si tk by (simp add: read_sample_list_def)
  have inv_si: "length (eligible_sample_dict si) \<le> sample_count si"
    using inv si by (simp add: read_sample_list_def)
  have inv_sj: "length (eligible_sample_dict sj) \<le> sample_count sj"
    using inv sj by (simp add: read_sample_list_def)
  have "length (eligible_sample_dict ui') + 1 \<le> sample_count ui'
      \<or> sample_type \<in> fst ` set (eligible_sample_dict ui')"
    using first_type_slack_or_key[OF rowi _ inv_si] e ui nth by simp
  then have "length (eligible_sample_dict sj) + 1 \<le> sample_count sj
      \<or> sample_type \<in> fst ` set (eligible_sample_dict sj)"
    using sample_lines_slack[OF f, of 1] sample_lines_keys[OF f] by blast
  then have "length (eligible_sample_dict tj') + 1 \<le> sample_count tj'"
  proof
    assume "length (eligible_sample_dict sj) + 1 \<le> sample_count sj"
    then show ?thesis using sample_list_line_slack[OF b[unfolded tj]] by blast
  next
    assume "sample_type \<in> fst ` set (eligible_sample_dict sj)"
    then show ?thesis using repeated_type_slack[OF rowj _ b[unfolded tj] inv_sj] by blast
  qed
  then have "length (eligible_sample_dict sl) + 1 \<le> sample_count sl"
    using sample_lines_slack[OF c] by blast
  then show ?thesis by simp
qed


lemma map_of_dict_union_single: "map_of (dict_union d [(k, v)]) = (map_of d)(k \<mapsto> v)"
  by (simp add: dict_union_def update_conv')

lemma subdir_not_all_eligible:
  assumes "L1_is_dir entry" and "sample_list_file entry = Some sl_infile"
    and "read_sample_list req ids (sample_list_found_log lg entry) sl_infile = Inr sl"
    and "length (eligible_sample_dict sl) < sample_count sl"
  shows "tsoppi_subdir re_compile extraction_patterns req ids input_dir_cont_path
           (available, lg) entry
         = Inr (dict_union available [(L1_path entry, ''S'')],
                sl_log sl @ [not_all_eligible_message])"
  using assms by (simp add: tsoppi_subdir_def)

text \<open>
  C9.  The eligible samples of a patient are kept by sample type.  When two data lines of
  the sample list (at positions \<open>i < j\<close>, read in the states \<open>si\<close> and \<open>sj\<close> that the
  lines before them lead to) have the same sample type, the dictionary of eligible samples
  ends with fewer entries than there are data lines, whether or not the samples pass the
  checks, and the directory step does what it does for a directory with an ineligible
  sample: it enters the directory itself with status \<open>S\<close> and evaluates no pattern (the
  result does not depend on the patterns, their compilation or the listing).
\<close>

theorem repeated_sample_type_skips_directory:
  assumes dir: "L1_is_dir entry" and sl: "sample_list_file entry = Some sl_infile"
    and run: "read_sample_list req ids (sample_list_found_log lg entry) sl_infile = Inr sl"
    and ij: "i < j" "j < length sl_infile"
    and si: "read_sample_list req ids (sample_list_found_log lg entry) (take i sl_infile) = Inr si"
    and sj: "read_sample_list req ids (sample_list_found_log lg entry) (take j sl_infile) = Inr sj"
    and rowi: "data_row si (sl_infile ! i) = Some (sample_type, id_i)"
    and rowj: "data_row sj (sl_infile ! j) = Some (sample_type, id_j)"
  shows "length (eligible_sample_dict sl) < sample_count sl
    \<and> tsoppi_subdir re_compile extraction_patterns req ids input_dir_cont_path
          (available, lg) entry
        = Inr (dict_union available [(L1_path entry, ''S'')],
               sl_log sl @ [not_all_eligible_message])"
  using repeated_type_count[OF run ij si sj rowi rowj]
    subdir_not_all_eligible[OF dir sl run] by simp

text \<open>
  C3, as amended.  When a data line of the sample list (at position \<open>i\<close>, read in the
  state \<open>si\<close> that the lines before it lead to) holds a sample that fails the ID match or
  the required nomenclature, the directory step enters the directory's own path with status
  \<open>S\<close> and changes nothing else in the dictionary: no path under the directory is
  entered, and no pattern is evaluated (the result does not depend on the patterns, their
  compilation or the listing).
\<close>

theorem failing_sample_skips_directory:
  assumes dir: "L1_is_dir entry" and sl: "sample_list_file entry = Some sl_infile"
    and run: "read_sample_list req ids (sample_list_found_log lg entry) sl_infile = Inr sl"
    and i: "i < length sl_infile"
    and si: "read_sample_list req ids (sample_list_found_log lg entry) (take i sl_infile) = Inr si"
    and row: "data_row si (sl_infile ! i) = Some (sample_type, sample_id)"
    and fail: "\<not> sample_passes req ids sample_id"
  shows "tsoppi_subdir re_compile extraction_patterns req ids input_dir_cont_path
           (available, lg) entry
         = Inr (dict_union available [(L1_path entry, ''S'')],
                sl_log sl @ [not_all_eligible_message])
    \<and> map_of (dict_union available [(L1_path entry, ''S'')])
        = (map_of available)(L1_path entry \<mapsto> ''S'')"
  using failing_row_count[OF run i si row fail]
    subdir_not_all_eligible[OF dir sl run] map_of_dict_union_single by simp


theorem repeated_sample_type_skips_directory_witness:
  "map_sum id fst
     (tsoppi_subdir (\<lambda>r. Inr (\<lambda>p. True)) (\<lambda>c. [(''.*'', 1)]) False
        \<lparr>id_header_read = True, fi_matching_method = 0, fi_target_ID = 1,
         ID_prefix_list = [''IPD''], ID_string = Some ''IPD'', id_log = []\<rparr>
        ''/in'' ([], [])
        \<lparr>L1_path = ''/in/P1'', L1_is_dir = True,
         sample_list_file =
           Some [''#sample_type'' @ [CHR 0x09] @ ''sample_output_ID'' @ [CHR 0x0A],
                 ''DNA_tumor'' @ [CHR 0x09] @ ''IPD0001-D01-T01-A01'' @ [CHR 0x0A],
                 ''DNA_tumor'' @ [CHR 0x09] @ ''IPD0001-D01-T02-A01'' @ [CHR 0x0A]],
         L1_listing = [''/in/P1/'', ''/in/P1/sample_list.tsv'', ''/in/P1/a.vcf'']\<rparr>)
   = Inr [(''/in/P1'', ''S'')]"
proof -
  let ?ids = "\<lparr>id_header_read = True, fi_matching_method = 0, fi_target_ID = 1,
         ID_prefix_list = [''IPD''], ID_string = Some ''IPD'', id_log = []\<rparr>"
  let ?h = "''#sample_type'' @ [CHR 0x09] @ ''sample_output_ID'' @ [CHR 0x0A]"
  let ?a = "''DNA_tumor'' @ [CHR 0x09] @ ''IPD0001-D01-T01-A01'' @ [CHR 0x0A]"
  let ?b = "''DNA_tumor'' @ [CHR 0x09] @ ''IPD0001-D01-T02-A01'' @ [CHR 0x0A]"
  let ?e = "\<lparr>L1_path = ''/in/P1'', L1_is_dir = True, sample_list_file = Some [?h, ?a, ?b],
         L1_listing = [''/in/P1/'', ''/in/P1/sample_list.tsv'', ''/in/P1/a.vcf'']\<rparr>"
  let ?lg = "sample_list_found_log [] ?e"
  let ?ma = "LogInfo ('' - ID match for sample '' @ dq @ ''IPD0001-D01-T01-A01'' @ dq
                @ '' ('' @ dq @ ''IPD'' @ dq @ '').'')"
  let ?mb = "LogInfo ('' - ID match for sample '' @ dq @ ''IPD0001-D01-T02-A01'' @ dq
                @ '' ('' @ dq @ ''IPD'' @ dq @ '').'')"
  let ?s1 = "\<lparr>sl_header_read = True, fi_sample_type = 0, fi_sample_output_ID = 1,
        eligible_sample_dict = [], sample_count = 0, sl_log = ?lg\<rparr>"
  let ?s2 = "\<lparr>sl_header_read = True, fi_sample_type = 0, fi_sample_output_ID = 1,
        eligible_sample_dict = [(''DNA_tumor'', ''IPD0001-D01-T01-A01'')], sample_count = 1,
        sl_log = ?lg @ [?ma]\<rparr>"
  let ?s3 = "\<lparr>sl_header_read = True, fi_sample_type = 0, fi_sample_output_ID = 1,
        eligible_sample_dict = [(''DNA_tumor'', ''IPD0001-D01-T02-A01'')], sample_count = 2,
        sl_log = ?lg @ [?ma, ?mb]\<rparr>"
  have dir: "L1_is_dir ?e" and sl: "sample_list_file ?e = Some [?h, ?a, ?b]"
    by simp_all
  have run: "read_sample_list False ?ids ?lg [?h, ?a, ?b] = Inr ?s3" by code_simp
  have ij: "(1::nat) < 2" "(2::nat) < length [?h, ?a, ?b]" by simp_all
  have si: "read_sample_list False ?ids ?lg (take 1 [?h, ?a, ?b]) = Inr ?s1" by code_simp
  have sj: "read_sample_list False ?ids ?lg (take 2 [?h, ?a, ?b]) = Inr ?s2" by code_simp
  have rowi: "data_row ?s1 ([?h, ?a, ?b] ! 1) = Some (''DNA_tumor'', ''IPD0001-D01-T01-A01'')"
    by code_simp
  have rowj: "data_row ?s2 ([?h, ?a, ?b] ! 2) = Some (''DNA_tumor'', ''IPD0001-D01-T02-A01'')"
    by code_simp
  show ?thesis
    using repeated_sample_type_skips_directory[OF dir sl run ij si sj rowi rowj,
        of "\<lambda>r. Inr (\<lambda>p. True)" "\<lambda>c. [(''.*'', 1)]" "''/in''" "[]"]
    by (simp add: dict_union_def)
qed


theorem failing_sample_skips_directory_witness:
  "map_sum id fst
     (tsoppi_subdir (\<lambda>r. Inr (\<lambda>p. True)) (\<lambda>c. [(''.*'', 1)]) False
        \<lparr>id_header_read = True, fi_matching_method = 0, fi_target_ID = 1,
         ID_prefix_list = [''IPD''], ID_string = Some ''IPD'', id_log = []\<rparr>
        ''/in'' ([(''/in/P0'', ''S'')], [])
        \<lparr>L1_path = ''/in/P1'', L1_is_dir = True,
         sample_list_file =
           Some [''#sample_type'' @ [CHR 0x09] @ ''sample_output_ID'' @ [CHR 0x0A],
                 ''DNA_tumor'' @ [CHR 0x09] @ ''IPD0001-D01-T01-A01'' @ [CHR 0x0A],
                 ''DNA_normal'' @ [CHR 0x09] @ ''XYZ0001-D01-N01-A01'' @ [CHR 0x0A]],
         L1_listing = [''/in/P1/'', ''/in/P1/sample_list.tsv'', ''/in/P1/a.vcf'']\<rparr>)
   = Inr [(''/in/P0'', ''S''), (''/in/P1'', ''S'')]"
proof -
  let ?ids = "\<lparr>id_header_read = True, fi_matching_method = 0, fi_target_ID = 1,
         ID_prefix_list = [''IPD''], ID_string = Some ''IPD'', id_log = []\<rparr>"
  let ?h = "''#sample_type'' @ [CHR 0x09] @ ''sample_output_ID'' @ [CHR 0x0A]"
  let ?a = "''DNA_tumor'' @ [CHR 0x09] @ ''IPD0001-D01-T01-A01'' @ [CHR 0x0A]"
  let ?b = "''DNA_normal'' @ [CHR 0x09] @ ''XYZ0001-D01-N01-A01'' @ [CHR 0x0A]"
  let ?e = "\<lparr>L1_path = ''/in/P1'', L1_is_dir = True, sample_list_file = Some [?h, ?a, ?b],
         L1_listing = [''/in/P1/'', ''/in/P1/sample_list.tsv'', ''/in/P1/a.vcf'']\<rparr>"
  let ?lg = "sample_list_found_log [] ?e"
  let ?ma = "LogInfo ('' - ID match for sample '' @ dq @ ''IPD0001-D01-T01-A01'' @ dq
                @ '' ('' @ dq @ ''IPD'' @ dq @ '').'')"
  let ?mb = "LogInfo ('' - No ID match for sample sample '' @ dq @ ''XYZ0001-D01-N01-A01''
                @ dq @ ''.'')"
  let ?s2 = "\<lparr>sl_header_read = True, fi_sample_type = 0, fi_sample_output_ID = 1,
        eligible_sample_dict = [(''DNA_tumor'', ''IPD0001-D01-T01-A01'')], sample_count = 1,
        sl_log = ?lg @ [?ma]\<rparr>"
  let ?s3 = "\<lparr>sl_header_read = True, fi_sample_type = 0, fi_sample_output_ID = 1,
        eligible_sample_dict = [(''DNA_tumor'', ''IPD0001-D01-T01-A01'')], sample_count = 2,
        sl_log = ?lg @ [?ma, ?mb]\<rparr>"
  have dir: "L1_is_dir ?e" and sl: "sample_list_file ?e = Some [?h, ?a, ?b]"
    by simp_all
  have run: "read_sample_list False ?ids ?lg [?h, ?a, ?b] = Inr ?s3" by code_simp
  have i: "(2::nat) < length [?h, ?a, ?b]" by simp
  have si: "read_sample_list False ?ids ?lg (take 2 [?h, ?a, ?b]) = Inr ?s2" by code_simp
  have row: "data_row ?s2 ([?h, ?a, ?b] ! 2) = Some (''DNA_normal'', ''XYZ0001-D01-N01-A01'')"
    by code_simp
  have fail: "\<not> sample_passes False ?ids ''XYZ0001-D01-N01-A01''" by code_simp
  show ?thesis
    using failing_sample_skips_directory[OF dir sl run i si row fail,
        of "\<lambda>r. Inr (\<lambda>p. True)" "\<lambda>c. [(''.*'', 1)]" "''/in''" "[(''/in/P0'', ''S'')]"]
    by (simp add: dict_union_def)
qed

text \<open>
  Against C3 as it is stated.
  A directory with one sample that is not on the ID list and with a file \<open>a.vcf\<close>: at
  the end of the classification the dictionary holds the directory alone; the file under it
  has no status, so it does not have status \<open>S\<close>.
\<close>

theorem failing_sample_directory_contents_counterexample:
  "map_sum id fst
     (tsoppi_classify (\<lambda>r. Inr (\<lambda>p. True)) (\<lambda>c. [(''.*'', 1)]) False
        \<lparr>id_header_read = True, fi_matching_method = 0, fi_target_ID = 1,
         ID_prefix_list = [''IPD''], ID_string = Some ''IPD'', id_log = []\<rparr>
        ''/in''
        [\<lparr>L1_path = ''/in/P1'', L1_is_dir = True,
          sample_list_file =
            Some [''#sample_type'' @ [CHR 0x09] @ ''sample_output_ID'' @ [CHR 0x0A],
                  ''DNA_tumor'' @ [CHR 0x09] @ ''XYZ0001-D01-T01-A01'' @ [CHR 0x0A]],
          L1_listing = [''/in/P1/'', ''/in/P1/sample_list.tsv'', ''/in/P1/a.vcf'']\<rparr>])
   = Inr [(''/in/P1'', ''S'')]
   \<and> map_of [(''/in/P1'', ''S'')] ''/in/P1/a.vcf'' \<noteq> Some ''S''"
  by code_simp

section \<open>What a pattern application changes\<close>

lemma for_each_invariant:
  assumes "for_each f s xs = Inr s'" and "P s"
    and "\<And>t x t'. x \<in> set xs \<Longrightarrow> P t \<Longrightarrow> f t x = Inr t' \<Longrightarrow> P t'"
  shows "P s'"
  using assms
proof (induction xs arbitrary: s)
  case Nil
  then show ?case by simp
next
  case (Cons x xs)
  from Cons.prems(1) obtain s1 where 1: "f s x = Inr s1" and 2: "for_each f s1 xs = Inr s'"
    by (auto split: sum.splits)
  have s1: "P s1" using Cons.prems(3)[OF _ Cons.prems(2) 1] by simp
  show ?case
  proof (rule Cons.IH[OF 2 s1])
    fix t x' t'
    assume "x' \<in> set xs" "P t" "f t x' = Inr t'"
    then show "P t'" using Cons.prems(3)[of x' t t'] by simp
  qed
qed

lemma keys_update_present:
  "has_key d k \<Longrightarrow> map fst (AList.update k v d) = map fst d"
  by (simp add: has_key_def update_keys)

lemma has_key_update: "has_key (AList.update k v d) x = (x = k \<or> has_key d x)"
  by (auto simp: has_key_def dom_update)

lemma map_of_update_other: "x \<noteq> k \<Longrightarrow> map_of (AList.update k v d) x = map_of d x"
  by (simp add: update_conv')

lemma map_of_update_same: "map_of (AList.update k v d) k = Some v"
  by (simp add: update_conv')

lemma mark_parents_keys:
  "mark_parents p b d = Inr d' \<Longrightarrow> map fst d' = map fst d"
proof (induction p b d rule: mark_parents.induct)
  case (1 p b d)
  show ?case
  proof (cases "p \<noteq> b \<and> has_key d p")
    case False
    then show ?thesis
      using "1.prems" by (auto simp: mark_parents.simps[of p b d] split: if_splits)
  next
    case True
    then obtain q where q: "path_parent p = Inr q"
      and r: "mark_parents q b (AList.update p ''I'' d) = Inr d'"
      using "1.prems" by (auto simp: mark_parents.simps[of p b d] split: sum.splits)
    have "map fst d' = map fst (AList.update p ''I'' d)"
      using "1.IH"[OF _ _ q r] True by simp
    then show ?thesis using True by (simp add: keys_update_present)
  qed
qed

lemma mark_parents_changes:
  "mark_parents p b d = Inr d' \<Longrightarrow>
   map_of d' x = map_of d x \<or> (x \<in> set (p # ancestors p) \<and> map_of d' x = Some ''I'')"
proof (induction p b d rule: mark_parents.induct)
  case (1 p b d)
  show ?case
  proof (cases "p \<noteq> b \<and> has_key d p")
    case False
    then show ?thesis
      using "1.prems" by (auto simp: mark_parents.simps[of p b d] split: if_splits)
  next
    case True
    then obtain q where q: "path_parent p = Inr q"
      and r: "mark_parents q b (AList.update p ''I'' d) = Inr d'"
      using "1.prems" by (auto simp: mark_parents.simps[of p b d] split: sum.splits)
    have anc: "ancestors p = q # ancestors q"
      using q by (simp add: ancestors.simps[of p])
    have "map_of d' x = map_of (AList.update p ''I'' d) x
        \<or> (x \<in> set (q # ancestors q) \<and> map_of d' x = Some ''I'')"
      using "1.IH"[OF _ _ q r] True by simp
    then show ?thesis
      using anc by (cases "x = p") (auto simp: map_of_update_other map_of_update_same)
  qed
qed

lemma mark_matching_path_keys:
  assumes "mark_matching_path b d q = Inr d'" and "has_key d q"
  shows "map fst d' = map fst d"
  using assms
  by (auto simp: mark_matching_path_def keys_update_present split: sum.splits
      dest!: mark_parents_keys)

lemma mark_matching_path_changes:
  assumes "mark_matching_path b d q = Inr d'"
  shows "(x = q \<and> map_of d' x = Some ''E'') \<or> (x \<noteq> q \<and> map_of d' x = map_of d x)
     \<or> (x \<in> set (ancestors q) \<and> map_of d' x = Some ''I'')"
proof -
  obtain p where p: "path_parent q = Inr p"
    and r: "mark_parents p b (AList.update q ''E'' d) = Inr d'"
    using assms by (auto simp: mark_matching_path_def split: sum.splits)
  have anc: "ancestors q = p # ancestors p"
    using p by (simp add: ancestors.simps[of q])
  show ?thesis
    using mark_parents_changes[OF r, of x] anc
    by (cases "x = q") (auto simp: map_of_update_other map_of_update_same)
qed

lemma mark_paths_keys:
  assumes "for_each (mark_matching_path b) d qs = Inr d'" and "set qs \<subseteq> set (map fst d)"
  shows "map fst d' = map fst d"
proof -
  have "map fst d' = map fst d"
    using assms(1)
  proof (rule for_each_invariant[where P = "\<lambda>t. map fst t = map fst d"])
    show "map fst d = map fst d" by simp
  next
    fix t x t'
    assume "x \<in> set qs" "map fst t = map fst d" "mark_matching_path b t x = Inr t'"
    then show "map fst t' = map fst d"
      using assms(2) mark_matching_path_keys[of b t x t'] by (auto simp: has_key_def)
  qed
  then show ?thesis .
qed

lemma reclassify_keys:
  assumes "reclassify_matching_paths pat d b = Inr (n, d')"
  shows "map fst d' = map fst d"
proof -
  from assms have "for_each (mark_matching_path b) d (filter pat (map fst d)) = Inr d'"
    by (auto simp: reclassify_matching_paths_def Let_def split: sum.splits)
  then show ?thesis by (rule mark_paths_keys) auto
qed

lemma apply_pattern_keys:
  "apply_pattern b d pat = Inr d' \<Longrightarrow> map fst d' = map fst d"
  by (auto simp: apply_pattern_def split: sum.splits dest: reclassify_keys)

lemma apply_patterns_keys:
  assumes "apply_patterns ps b d = Inr d'"
  shows "map fst d' = map fst d"
  using assms[unfolded apply_patterns_def]
  by (rule for_each_invariant[where P = "\<lambda>t. map fst t = map fst d"])
     (auto dest: apply_pattern_keys)


lemma mark_paths_once_export:
  assumes "for_each (mark_matching_path b) t qs = Inr t'"
    and "map_of t p = Some ''E'' \<or> map_of t p = Some ''I'' \<or> p \<in> set qs"
  shows "map_of t' p = Some ''E'' \<or> map_of t' p = Some ''I''"
  using assms
proof (induction qs arbitrary: t)
  case Nil
  then show ?case by simp
next
  case (Cons q qs)
  from Cons.prems(1) obtain t1 where 1: "mark_matching_path b t q = Inr t1"
    and 2: "for_each (mark_matching_path b) t1 qs = Inr t'"
    by (auto split: sum.splits)
  have "map_of t1 p = Some ''E'' \<or> map_of t1 p = Some ''I'' \<or> p \<in> set qs"
    using mark_matching_path_changes[OF 1, of p] Cons.prems(2) by auto
  then show ?case by (rule Cons.IH[OF 2])
qed

lemma mark_paths_export_kept:
  assumes "for_each (mark_matching_path b) t qs = Inr t'"
    and "map_of t p = Some ''E'' \<or> p \<in> set qs"
    and "\<forall>q \<in> set qs. p \<notin> set (ancestors q)"
  shows "map_of t' p = Some ''E''"
  using assms
proof (induction qs arbitrary: t)
  case Nil
  then show ?case by simp
next
  case (Cons q qs)
  from Cons.prems(1) obtain t1 where 1: "mark_matching_path b t q = Inr t1"
    and 2: "for_each (mark_matching_path b) t1 qs = Inr t'"
    by (auto split: sum.splits)
  have "p \<notin> set (ancestors q)" using Cons.prems(3) by simp
  then have "map_of t1 p = Some ''E'' \<or> p \<in> set qs"
    using mark_matching_path_changes[OF 1, of p] Cons.prems(2) by auto
  then show ?case using Cons.IH[OF 2] Cons.prems(3) by auto
qed

lemma apply_pattern_unfold:
  "apply_pattern b t pat = Inr t' \<longleftrightarrow>
   for_each (mark_matching_path b) t (filter pat (map fst t)) = Inr t'"
  by (auto simp: apply_pattern_def reclassify_matching_paths_def Let_def split: sum.splits)

lemma apply_patterns_once_export:
  assumes "apply_patterns ps b t = Inr t'"
    and "map_of t p = Some ''E'' \<or> map_of t p = Some ''I''
         \<or> (has_key t p \<and> (\<exists>pat \<in> set ps. pat p))"
  shows "map_of t' p = Some ''E'' \<or> map_of t' p = Some ''I''"
  using assms unfolding apply_patterns_def
proof (induction ps arbitrary: t)
  case Nil
  then show ?case by (simp add: has_key_def)
next
  case (Cons pat ps)
  from Cons.prems(1) obtain t1 where 1: "apply_pattern b t pat = Inr t1"
    and 2: "for_each (apply_pattern b) t1 ps = Inr t'"
    by (auto split: sum.splits)
  have k: "map fst t1 = map fst t" using 1 by (rule apply_pattern_keys)
  have m: "for_each (mark_matching_path b) t (filter pat (map fst t)) = Inr t1"
    using 1 by (simp add: apply_pattern_unfold)
  show ?case
  proof (cases "map_of t p = Some ''E'' \<or> map_of t p = Some ''I'' \<or> (has_key t p \<and> pat p)")
    case True
    then have "map_of t1 p = Some ''E'' \<or> map_of t1 p = Some ''I''"
      using mark_paths_once_export[OF m, of p] by (auto simp: has_key_def)
    then show ?thesis using Cons.IH[OF 2] by blast
  next
    case False
    then have "has_key t1 p \<and> (\<exists>pat \<in> set ps. pat p)"
      using Cons.prems(2) k by (auto simp: has_key_def)
    then show ?thesis using Cons.IH[OF 2] by blast
  qed
qed

lemma apply_patterns_export_kept:
  assumes "apply_patterns ps b t = Inr t'"
    and "map_of t p = Some ''E'' \<or> (has_key t p \<and> (\<exists>pat \<in> set ps. pat p))"
    and "\<forall>pat \<in> set ps. \<forall>q. has_key t q \<and> pat q \<longrightarrow> p \<notin> set (ancestors q)"
  shows "map_of t' p = Some ''E''"
  using assms unfolding apply_patterns_def
proof (induction ps arbitrary: t)
  case Nil
  then show ?case by simp
next
  case (Cons pat ps)
  from Cons.prems(1) obtain t1 where 1: "apply_pattern b t pat = Inr t1"
    and 2: "for_each (apply_pattern b) t1 ps = Inr t'"
    by (auto split: sum.splits)
  have k: "map fst t1 = map fst t" using 1 by (rule apply_pattern_keys)
  then have hk: "\<And>x. has_key t1 x = has_key t x" by (simp add: has_key_def)
  have m: "for_each (mark_matching_path b) t (filter pat (map fst t)) = Inr t1"
    using 1 by (simp add: apply_pattern_unfold)
  have na: "\<forall>q \<in> set (filter pat (map fst t)). p \<notin> set (ancestors q)"
    using Cons.prems(3) by (auto simp: has_key_def)
  have rest: "\<forall>pat \<in> set ps. \<forall>q. has_key t1 q \<and> pat q \<longrightarrow> p \<notin> set (ancestors q)"
    using Cons.prems(3) hk by simp
  show ?case
  proof (cases "map_of t p = Some ''E'' \<or> (has_key t p \<and> pat p)")
    case True
    then have "map_of t1 p = Some ''E''"
      using mark_paths_export_kept[OF m _ na] by (auto simp: has_key_def)
    then show ?thesis using Cons.IH[OF 2 _ rest] by blast
  next
    case False
    then have "has_key t1 p \<and> (\<exists>pat \<in> set ps. pat p)"
      using Cons.prems(2) hk by auto
    then show ?thesis using Cons.IH[OF 2 _ rest] by blast
  qed
qed

text \<open>
  C1, as amended.  Let a sequence of pattern applications end normally, and let \<open>p\<close> be a
  path that is once marked \<open>E\<close>: it has status \<open>E\<close> at the start, or it is a key that one
  of the patterns matches.  Then \<open>p\<close> never falls back to \<open>S\<close>: its final status is \<open>E\<close> or
  \<open>I\<close>.  The walk over the ancestors of a matching path sets every ancestor it reaches to
  \<open>I\<close>, whatever its status; so \<open>p\<close> keeps \<open>E\<close> at least when it is not an ancestor of
  any key that a pattern matches.
\<close>

theorem export_kept_unless_above_a_match:
  assumes run: "apply_patterns ps base d = Inr d'"
    and once: "map_of d p = Some ''E'' \<or> (has_key d p \<and> (\<exists>pat \<in> set ps. pat p))"
  shows "(map_of d' p = Some ''E'' \<or> map_of d' p = Some ''I'')
    \<and> ((\<forall>pat \<in> set ps. \<forall>q. has_key d q \<and> pat q \<longrightarrow> p \<notin> set (ancestors q))
        \<longrightarrow> map_of d' p = Some ''E'')"
  using apply_patterns_once_export[OF run, of p] apply_patterns_export_kept[OF run, of p] once
  by blast


theorem export_kept_unless_above_a_match_witness:
  "apply_patterns [(=) ''/in/d'', (=) ''/in/d/f''] ''/in''
     (initial_paths [''/in/'', ''/in/d'', ''/in/d/f'', ''/in/x''] ''/in'')
   = Inr [(''/in/d'', ''I''), (''/in/d/f'', ''E''), (''/in/x'', ''S'')]
   \<and> map_of [(''/in/d'', ''I''), (''/in/d/f'', ''E''), (''/in/x'', ''S'')] ''/in/d/f''
     = Some ''E''"
proof -
  let ?ps = "[(=) ''/in/d'', (=) ''/in/d/f'']"
  let ?d = "initial_paths [''/in/'', ''/in/d'', ''/in/d/f'', ''/in/x''] ''/in''"
  let ?d' = "[(''/in/d'', ''I''), (''/in/d/f'', ''E''), (''/in/x'', ''S'')]"
  have run: "apply_patterns ?ps ''/in'' ?d = Inr ?d'" by code_simp
  have key: "has_key ?d ''/in/d/f''" by code_simp
  have once: "map_of ?d ''/in/d/f'' = Some ''E''
      \<or> (has_key ?d ''/in/d/f'' \<and> (\<exists>pat \<in> set ?ps. pat ''/in/d/f''))"
    using key by simp
  have a1: "ancestors ''/in/d'' = [''/in'', ''/'']"
    and a2: "ancestors ''/in/d/f'' = [''/in/d'', ''/in'', ''/'']"
    by code_simp+
  have above: "\<forall>pat \<in> set ?ps. \<forall>q. has_key ?d q \<and> pat q
      \<longrightarrow> ''/in/d/f'' \<notin> set (ancestors q)"
    using a1 a2 by auto
  show ?thesis
    using export_kept_unless_above_a_match[OF run once] above run by blast
qed

text \<open>
  Against C1 as it is stated.
  A directory \<open>/in/d\<close> that one pattern matches and a file \<open>/in/d/f\<close> in it that the next
  pattern matches: the first application marks the directory \<open>E\<close>, the second one changes
  it to \<open>I\<close>, and \<open>I\<close> is its final status.
\<close>

theorem export_downgraded_to_ignore_counterexample:
  "apply_patterns [(=) ''/in/d''] ''/in''
     (initial_paths [''/in/'', ''/in/d'', ''/in/d/f''] ''/in'')
   = Inr [(''/in/d'', ''E''), (''/in/d/f'', ''S'')]
   \<and> apply_patterns [(=) ''/in/d/f''] ''/in'' [(''/in/d'', ''E''), (''/in/d/f'', ''S'')]
     = Inr [(''/in/d'', ''I''), (''/in/d/f'', ''E'')]
   \<and> apply_patterns [(=) ''/in/d'', (=) ''/in/d/f''] ''/in''
       (initial_paths [''/in/'', ''/in/d'', ''/in/d/f''] ''/in'')
     = Inr [(''/in/d'', ''I''), (''/in/d/f'', ''E'')]"
  by code_simp

section \<open>The order of the patterns\<close>

lemma set_all_Cons: "set_all v (k # ks) d = set_all v ks (AList.update k v d)"
  by (simp add: set_all_def)

lemma map_of_set_all:
  "map_of (set_all v ks d) x = (if x \<in> set ks then Some v else map_of d x)"
  by (induction ks arbitrary: d) (auto simp: set_all_def update_conv')

lemma keys_set_all:
  "set ks \<subseteq> set (map fst d) \<Longrightarrow> map fst (set_all v ks d) = map fst d"
proof (induction ks arbitrary: d)
  case Nil
  then show ?case by (simp add: set_all_def)
next
  case (Cons k ks)
  then have k: "map fst (AList.update k v d) = map fst d"
    by (simp add: update_keys)
  then have "map fst (set_all v ks (AList.update k v d)) = map fst (AList.update k v d)"
    using Cons.prems by (intro Cons.IH) simp
  then show ?case using k by (simp add: set_all_Cons)
qed

lemma marked_parents_facts:
  "marked_parents p b K = Inr vs \<Longrightarrow> set vs \<subseteq> K \<and> set vs \<subseteq> set (p # ancestors p)"
proof (induction p b K arbitrary: vs rule: marked_parents.induct)
  case (1 p b K)
  show ?case
  proof (cases "p \<noteq> b \<and> p \<in> K")
    case False
    then show ?thesis
      using "1.prems" by (auto simp: marked_parents.simps[of p b K] split: if_splits)
  next
    case True
    then obtain q ws where q: "path_parent p = Inr q" and w: "marked_parents q b K = Inr ws"
      and vs: "vs = p # ws"
      using "1.prems" by (auto simp: marked_parents.simps[of p b K] split: sum.splits)
    have "ancestors p = q # ancestors q" using q by (simp add: ancestors.simps[of p])
    then show ?thesis using "1.IH"[OF True q w] True vs by auto
  qed
qed

lemma marked_parents_error: "marked_parents p b K = Inl e \<Longrightarrow> e = IndexError"
proof (induction p b K rule: marked_parents.induct)
  case (1 p b K)
  then show ?case
    by (auto simp: marked_parents.simps[of p b K] path_parent_def Let_def
        split: if_splits sum.splits)
qed

lemma marked_parents_stop: "\<not> (p \<noteq> b \<and> p \<in> K) \<Longrightarrow> marked_parents p b K = Inr []"
  by (subst marked_parents.simps) auto

lemma marked_parents_step:
  "p \<noteq> b \<Longrightarrow> p \<in> K \<Longrightarrow>
   marked_parents p b K =
     (case path_parent p of
        Inl e \<Rightarrow> Inl e
      | Inr q \<Rightarrow> (case marked_parents q b K of Inl e \<Rightarrow> Inl e | Inr vs \<Rightarrow> Inr (p # vs)))"
  by (subst marked_parents.simps) auto

lemma mark_parents_stop: "\<not> (p \<noteq> b \<and> has_key d p) \<Longrightarrow> mark_parents p b d = Inr d"
  by (subst mark_parents.simps) auto

lemma mark_parents_step:
  "p \<noteq> b \<Longrightarrow> has_key d p \<Longrightarrow>
   mark_parents p b d =
     (case path_parent p of
        Inl e \<Rightarrow> Inl e
      | Inr q \<Rightarrow> mark_parents q b (AList.update p ''I'' d))"
  by (subst mark_parents.simps) auto

lemma mark_parents_marked_aux:
  "K = set (map fst d) \<Longrightarrow>
   mark_parents p b d =
     (case marked_parents p b K of Inl e \<Rightarrow> Inl e | Inr vs \<Rightarrow> Inr (set_all ''I'' vs d))"
proof (induction p b d rule: mark_parents.induct)
  case (1 p b d)
  have hk: "has_key d p \<longleftrightarrow> p \<in> K" using "1.prems" by (simp add: has_key_def)
  show ?case
  proof (cases "p \<noteq> b \<and> has_key d p")
    case False
    then show ?thesis
      using hk by (simp add: mark_parents_stop marked_parents_stop set_all_def)
  next
    case True
    note t = this
    show ?thesis
    proof (cases "path_parent p")
      case (Inl e)
      then show ?thesis
        using t hk by (simp add: mark_parents_step marked_parents_step)
    next
      case (Inr q)
      have k: "K = set (map fst (AList.update p ''I'' d))"
        using t "1.prems" by (simp add: keys_update_present)
      have "mark_parents p b d = mark_parents q b (AList.update p ''I'' d)"
        using t Inr by (simp add: mark_parents_step)
      also have "\<dots> = (case marked_parents q b K of
            Inl e \<Rightarrow> Inl e | Inr vs \<Rightarrow> Inr (set_all ''I'' vs (AList.update p ''I'' d)))"
        using "1.IH"[OF _ _ Inr k] t by simp
      also have "\<dots> = (case marked_parents p b K of
            Inl e \<Rightarrow> Inl e | Inr vs \<Rightarrow> Inr (set_all ''I'' vs d))"
        using t hk Inr by (simp add: marked_parents_step set_all_Cons split: sum.splits)
      finally show ?thesis .
    qed
  qed
qed

lemma mark_parents_marked:
  "mark_parents p b d =
     (case marked_parents p b (set (map fst d)) of
        Inl e \<Rightarrow> Inl e
      | Inr vs \<Rightarrow> Inr (set_all ''I'' vs d))"
  by (rule mark_parents_marked_aux) simp

lemma marked_above_facts:
  "marked_above q b K = Inr vs \<Longrightarrow> set vs \<subseteq> K \<and> set vs \<subseteq> set (ancestors q)"
  by (auto simp: marked_above_def ancestors.simps[of q] split: sum.splits
      dest!: marked_parents_facts)

lemma marked_above_error: "marked_above q b K = Inl e \<Longrightarrow> e = IndexError"
  by (auto simp: marked_above_def path_parent_def Let_def split: sum.splits if_splits
      dest: marked_parents_error)

lemma marks_ancestors: "marks q b K \<subseteq> set (ancestors q)"
  by (auto simp: marks_def split: sum.splits dest: marked_above_facts)

lemma mark_matching_path_marked:
  assumes "has_key d q"
  shows "mark_matching_path b d q =
     (case marked_above q b (set (map fst d)) of
        Inl e \<Rightarrow> Inl e
      | Inr vs \<Rightarrow> Inr (set_all ''I'' vs (AList.update q ''E'' d)))"
  using assms
  by (simp add: mark_matching_path_def marked_above_def mark_parents_marked
      keys_update_present split: sum.splits)


lemma mark_matching_path_keys_set:
  assumes "mark_matching_path b t q = Inr t1" and "has_key t q"
  shows "set (map fst t1) = set (map fst t)"
  using mark_matching_path_keys[OF assms] by simp

lemma mark_paths_error:
  "for_each (mark_matching_path b) t qs = Inl e \<Longrightarrow> e = IndexError"
proof (induction qs arbitrary: t)
  case Nil
  then show ?case by simp
next
  case (Cons q qs)
  show ?case
  proof (cases "mark_matching_path b t q")
    case (Inl e')
    then have "e' = IndexError"
      by (auto simp: mark_matching_path_def mark_parents_marked path_parent_def Let_def
          split: sum.splits if_splits dest: marked_parents_error)
    then show ?thesis using Inl Cons.prems by simp
  next
    case (Inr t1)
    then show ?thesis using Cons by simp
  qed
qed

lemma mark_paths_fails_iff:
  assumes "set qs \<subseteq> set (map fst t)"
  shows "isl (for_each (mark_matching_path b) t qs)
     \<longleftrightarrow> (\<exists>q \<in> set qs. isl (marked_above q b (set (map fst t))))"
  using assms
proof (induction qs arbitrary: t)
  case Nil
  then show ?case by simp
next
  case (Cons q qs)
  then have hq: "has_key t q" by (simp add: has_key_def)
  show ?case
  proof (cases "marked_above q b (set (map fst t))")
    case (Inl e)
    then show ?thesis using hq by (simp add: mark_matching_path_marked)
  next
    case (Inr vs)
    then obtain t1 where 1: "mark_matching_path b t q = Inr t1"
      using hq by (simp add: mark_matching_path_marked)
    have k: "set (map fst t1) = set (map fst t)"
      using mark_matching_path_keys_set[OF 1 hq] .
    have "isl (for_each (mark_matching_path b) t1 qs)
       \<longleftrightarrow> (\<exists>q \<in> set qs. isl (marked_above q b (set (map fst t1))))"
      using Cons.prems k by (intro Cons.IH) simp
    then show ?thesis using 1 Inr k by simp
  qed
qed

lemma mark_paths_result:
  assumes "for_each (mark_matching_path b) t qs = Inr t'"
    and "set qs \<subseteq> set (map fst t)"
    and "\<forall>q \<in> set qs. \<forall>a \<in> set (ancestors q). a \<notin> set qs"
  shows "map_of t' x =
     (if x \<in> set qs then Some ''E''
      else if \<exists>q \<in> set qs. x \<in> marks q b (set (map fst t)) then Some ''I''
      else map_of t x)"
  using assms
proof (induction qs arbitrary: t)
  case Nil
  then show ?case by simp
next
  case (Cons q qs)
  let ?K = "set (map fst t)"
  have hq: "has_key t q" using Cons.prems(2) by (simp add: has_key_def)
  from Cons.prems(1) obtain t1 where 1: "mark_matching_path b t q = Inr t1"
    and 2: "for_each (mark_matching_path b) t1 qs = Inr t'"
    by (auto split: sum.splits)
  obtain vs where vs: "marked_above q b ?K = Inr vs"
    and t1: "t1 = set_all ''I'' vs (AList.update q ''E'' t)"
    using 1 hq by (auto simp: mark_matching_path_marked split: sum.splits)
  have mq: "marks q b ?K = set vs" using vs by (simp add: marks_def)
  have k: "set (map fst t1) = ?K" using mark_matching_path_keys_set[OF 1 hq] .
  have sep: "\<forall>q' \<in> set (q # qs). \<forall>y \<in> set (q # qs). y \<notin> marks q' b ?K"
    using Cons.prems(3) marks_ancestors by blast
  have m1: "map_of t1 x = (if x \<in> set vs then Some ''I'' else if x = q then Some ''E''
      else map_of t x)"
    by (simp add: t1 map_of_set_all update_conv')
  have ih: "map_of t' x =
     (if x \<in> set qs then Some ''E''
      else if \<exists>q' \<in> set qs. x \<in> marks q' b ?K then Some ''I''
      else map_of t1 x)"
    using Cons.IH[OF 2] Cons.prems(2,3) k by simp
  show ?case
  proof (cases "x \<in> set (q # qs)")
    case True
    then have "\<forall>q' \<in> set (q # qs). x \<notin> marks q' b ?K" using sep by blast
    then show ?thesis using True ih m1 mq by auto
  next
    case False
    then show ?thesis using ih m1 mq by auto
  qed
qed

lemma apply_pattern_as_marks:
  "apply_pattern b t pat =
     for_each (mark_matching_path b) t (filter pat (map fst t))"
  by (auto simp: apply_pattern_def reclassify_matching_paths_def Let_def split: sum.splits)

lemma apply_patterns_flat:
  "apply_patterns ps b t =
     for_each (mark_matching_path b) t (concat (map (\<lambda>pat. filter pat (map fst t)) ps))"
  unfolding apply_patterns_def
proof (induction ps arbitrary: t)
  case Nil
  then show ?case by simp
next
  case (Cons pat ps)
  show ?case
  proof (cases "apply_pattern b t pat")
    case (Inl e)
    then show ?thesis by (simp add: apply_pattern_as_marks[symmetric] for_each_append)
  next
    case (Inr t1)
    then have "map fst t1 = map fst t" by (rule apply_pattern_keys)
    then show ?thesis
      using Inr Cons.IH[of t1]
      by (simp add: apply_pattern_as_marks[symmetric] for_each_append)
  qed
qed

lemma alist_eqI:
  assumes "distinct (map fst a)" and "map fst a = map fst b" and "map_of a = map_of b"
  shows "a = b"
  using assms
proof (induction a arbitrary: b)
  case Nil
  then show ?case by simp
next
  case (Cons kv a)
  obtain k v where kv: "kv = (k, v)" by (cases kv)
  obtain v' b' where b: "b = (k, v') # b'" and keys: "map fst a = map fst b'"
    using Cons.prems(2) kv by (cases b) auto
  have ka: "k \<notin> set (map fst a)" and da: "distinct (map fst a)"
    using Cons.prems(1) kv by simp_all
  have "map_of (kv # a) k = map_of b k" using Cons.prems(3) by (rule fun_cong)
  then have v: "v = v'" using kv b by simp
  have "map_of a x = map_of b' x" for x
  proof (cases "x = k")
    case True
    have "map_of a k = None" using ka by (simp add: map_of_eq_None_iff)
    moreover have "map_of b' k = None" using ka keys by (simp add: map_of_eq_None_iff)
    ultimately show ?thesis using True by simp
  next
    case False
    have "map_of (kv # a) x = map_of b x" using Cons.prems(3) by (rule fun_cong)
    then show ?thesis using False kv b by simp
  qed
  then have "map_of a = map_of b'" by (rule ext)
  then have "a = b'" using Cons.IH[OF da keys] by simp
  then show ?case using kv b v by simp
qed

lemma distinct_initial_paths: "distinct (map fst (initial_paths listing root))"
proof -
  have "\<And>d. distinct (map fst d) \<Longrightarrow>
      distinct (map fst (fold (\<lambda>item. AList.update item ''S'') listing d))"
    by (induction listing) (auto simp: distinct_update)
  then have "distinct (map fst (fold (\<lambda>item. AList.update item ''S'') listing []))"
    by simp
  then show ?thesis by (simp add: initial_paths_def Let_def distinct_delete)
qed


lemma set_matching_paths:
  "set (concat (map (\<lambda>pat. filter pat (map fst d)) ps))
     = {x. has_key d x \<and> (\<exists>pat \<in> set ps. pat x)}"
  by (auto simp: has_key_def)

text \<open>
  C2, as amended.  Take the dictionary a root starts from, and patterns among whose
  matches no path is an ancestor of another: whenever a key is matched by a pattern, none
  of its ancestors is a key matched by a pattern.  Then the outcome of applying the
  patterns (the final dictionary, or the failure) is the same for every order of the same
  patterns, and every key that at least one pattern matches has the final status \<open>E\<close>.
\<close>

theorem pattern_order_irrelevant_without_nested_matches:
  assumes same: "set ps = set ps'"
    and sep: "\<forall>q. has_key d q \<and> (\<exists>pat \<in> set ps. pat q) \<longrightarrow>
        (\<forall>a \<in> set (ancestors q). \<not> (has_key d a \<and> (\<exists>pat \<in> set ps. pat a)))"
    and d: "d = initial_paths listing root"
  shows "apply_patterns ps base d = apply_patterns ps' base d
    \<and> (apply_patterns ps base d = Inr d' \<and> has_key d p \<and> (\<exists>pat \<in> set ps. pat p)
        \<longrightarrow> map_of d' p = Some ''E'')"
proof
  let ?qs = "concat (map (\<lambda>pat. filter pat (map fst d)) ps)"
  let ?qs' = "concat (map (\<lambda>pat. filter pat (map fst d)) ps')"
  let ?K = "set (map fst d)"
  let ?run = "\<lambda>qs. for_each (mark_matching_path base) d qs"
  have qs: "set ?qs = {x. has_key d x \<and> (\<exists>pat \<in> set ps. pat x)}"
    by (rule set_matching_paths)
  have eq: "set ?qs' = set ?qs"
    unfolding set_matching_paths using same by simp
  have sub: "set ?qs \<subseteq> ?K" and sub': "set ?qs' \<subseteq> ?K" by auto
  have sepq: "\<forall>q \<in> set ?qs. \<forall>a \<in> set (ancestors q). a \<notin> set ?qs"
    unfolding qs using sep by blast
  have sepq': "\<forall>q \<in> set ?qs'. \<forall>a \<in> set (ancestors q). a \<notin> set ?qs'"
    using sepq eq by simp
  have f1: "isl (?run ?qs) \<longleftrightarrow> (\<exists>q \<in> set ?qs. isl (marked_above q base ?K))"
    using sub by (rule mark_paths_fails_iff)
  have f2: "isl (?run ?qs') \<longleftrightarrow> (\<exists>q \<in> set ?qs'. isl (marked_above q base ?K))"
    using sub' by (rule mark_paths_fails_iff)
  have fails: "isl (?run ?qs) \<longleftrightarrow> isl (?run ?qs')"
    unfolding f1 f2 eq by (rule refl)
  have "?run ?qs = ?run ?qs'"
  proof (cases "?run ?qs")
    case (Inl e)
    then obtain e' where e': "?run ?qs' = Inl e'"
      using fails by (cases "?run ?qs'") auto
    have "e = IndexError" using Inl by (rule mark_paths_error)
    moreover have "e' = IndexError" using e' by (rule mark_paths_error)
    ultimately show ?thesis using Inl e' by simp
  next
    case (Inr t)
    then obtain t' where t': "?run ?qs' = Inr t'"
      using fails by (cases "?run ?qs'") auto
    have k: "map fst t = map fst d" using Inr sub by (rule mark_paths_keys)
    have k': "map fst t' = map fst d" using t' sub' by (rule mark_paths_keys)
    have "map_of t x = map_of t' x" for x
      unfolding mark_paths_result[OF Inr sub sepq, of x]
        mark_paths_result[OF t' sub' sepq', of x] eq
      by (rule refl)
    then have "map_of t = map_of t'" by (rule ext)
    moreover have "distinct (map fst t)"
      using k d distinct_initial_paths by simp
    ultimately have "t = t'" using k k' by (intro alist_eqI) simp_all
    then show ?thesis using Inr t' by simp
  qed
  then show "apply_patterns ps base d = apply_patterns ps' base d"
    by (simp add: apply_patterns_flat)
next
  show "apply_patterns ps base d = Inr d' \<and> has_key d p \<and> (\<exists>pat \<in> set ps. pat p)
        \<longrightarrow> map_of d' p = Some ''E''"
  proof
    assume a: "apply_patterns ps base d = Inr d' \<and> has_key d p \<and> (\<exists>pat \<in> set ps. pat p)"
    then have "\<forall>pat \<in> set ps. \<forall>q. has_key d q \<and> pat q \<longrightarrow> p \<notin> set (ancestors q)"
      using sep by blast
    then show "map_of d' p = Some ''E''"
      using apply_patterns_export_kept[of ps base d d' p] a by blast
  qed
qed

theorem pattern_order_irrelevant_without_nested_matches_witness:
  "apply_patterns [(=) ''/in/d/f'', (=) ''/in/x''] ''/in''
     (initial_paths [''/in/'', ''/in/d'', ''/in/d/f'', ''/in/d/g'', ''/in/x''] ''/in'')
   = apply_patterns [(=) ''/in/x'', (=) ''/in/d/f''] ''/in''
     (initial_paths [''/in/'', ''/in/d'', ''/in/d/f'', ''/in/d/g'', ''/in/x''] ''/in'')
   \<and> apply_patterns [(=) ''/in/d/f'', (=) ''/in/x''] ''/in''
     (initial_paths [''/in/'', ''/in/d'', ''/in/d/f'', ''/in/d/g'', ''/in/x''] ''/in'')
   = Inr [(''/in/d'', ''I''), (''/in/d/f'', ''E''), (''/in/d/g'', ''S''), (''/in/x'', ''E'')]
   \<and> map_of [(''/in/d'', ''I''), (''/in/d/f'', ''E''), (''/in/d/g'', ''S''), (''/in/x'', ''E'')]
       ''/in/x'' = Some ''E''"
proof -
  let ?ps = "[(=) ''/in/d/f'', (=) ''/in/x'']"
  let ?ps' = "[(=) ''/in/x'', (=) ''/in/d/f'']"
  let ?d = "initial_paths [''/in/'', ''/in/d'', ''/in/d/f'', ''/in/d/g'', ''/in/x''] ''/in''"
  let ?d' = "[(''/in/d'', ''I''), (''/in/d/f'', ''E''), (''/in/d/g'', ''S''), (''/in/x'', ''E'')]"
  have same: "set ?ps = set ?ps'" by auto
  have a1: "ancestors ''/in/x'' = [''/in'', ''/'']"
    and a2: "ancestors ''/in/d/f'' = [''/in/d'', ''/in'', ''/'']"
    by code_simp+
  have sep: "\<forall>q. has_key ?d q \<and> (\<exists>pat \<in> set ?ps. pat q) \<longrightarrow>
        (\<forall>a \<in> set (ancestors q). \<not> (has_key ?d a \<and> (\<exists>pat \<in> set ?ps. pat a)))"
    using a1 a2 by auto
  have run: "apply_patterns ?ps ''/in'' ?d = Inr ?d'"
    by code_simp
  have key: "has_key ?d ''/in/x''" by code_simp
  have matched: "\<exists>pat \<in> set ?ps. pat ''/in/x''" by simp
  have "apply_patterns ?ps ''/in'' ?d = apply_patterns ?ps' ''/in'' ?d
    \<and> (apply_patterns ?ps ''/in'' ?d = Inr ?d' \<and> has_key ?d ''/in/x''
          \<and> (\<exists>pat \<in> set ?ps. pat ''/in/x'')
        \<longrightarrow> map_of ?d' ''/in/x'' = Some ''E'')"
    using same sep refl by (rule pattern_order_irrelevant_without_nested_matches)
  then show ?thesis using run key matched by blast
qed

text \<open>
  Against C2 as it is stated.
  A pattern that matches the directory \<open>/in/d\<close> and a pattern that matches the file
  \<open>/in/d/f\<close> in it: applied in this order the directory ends with status \<open>I\<close> although a
  pattern matches it, applied in the other order it ends with status \<open>E\<close>.
\<close>

theorem pattern_order_changes_result_counterexample:
  "apply_patterns [(=) ''/in/d'', (=) ''/in/d/f''] ''/in''
     (initial_paths [''/in/'', ''/in/d'', ''/in/d/f''] ''/in'')
   = Inr [(''/in/d'', ''I''), (''/in/d/f'', ''E'')]
   \<and> apply_patterns [(=) ''/in/d/f'', (=) ''/in/d''] ''/in''
       (initial_paths [''/in/'', ''/in/d'', ''/in/d/f''] ''/in'')
     = Inr [(''/in/d'', ''E''), (''/in/d/f'', ''E'')]"
  by code_simp

section \<open>The pattern loops are sequences of pattern applications\<close>

lemma apply_patterns_append:
  "apply_patterns (ps @ qs) b d =
     (case apply_patterns ps b d of Inl e \<Rightarrow> Inl e | Inr d1 \<Rightarrow> apply_patterns qs b d1)"
  by (simp add: apply_patterns_def for_each_append split: sum.splits)

lemma applications_refl: "\<exists>ps. apply_patterns ps b d = Inr d"
  by (rule exI[of _ "[]"]) (simp add: apply_patterns_def)

lemma applications_trans:
  assumes "\<exists>ps. apply_patterns ps b d = Inr d1" and "\<exists>ps. apply_patterns ps b d1 = Inr d2"
  shows "\<exists>ps. apply_patterns ps b d = Inr d2"
proof -
  obtain ps qs where "apply_patterns ps b d = Inr d1" "apply_patterns qs b d1 = Inr d2"
    using assms by blast
  then have "apply_patterns (ps @ qs) b d = Inr d2" by (simp add: apply_patterns_append)
  then show ?thesis by blast
qed

lemma applications_reclassify:
  assumes "reclassify_matching_paths pat d b = Inr (n, d')"
  shows "\<exists>ps. apply_patterns ps b d = Inr d'"
  by (rule exI[of _ "[pat]"]) (simp add: apply_patterns_def apply_pattern_def assms)

lemma for_each_applications:
  assumes "for_each f st xs = Inr st'"
    and "\<And>t x t'. x \<in> set xs \<Longrightarrow> f t x = Inr t' \<Longrightarrow>
           \<exists>ps. apply_patterns ps b (fst t) = Inr (fst t')"
  shows "\<exists>ps. apply_patterns ps b (fst st) = Inr (fst st')"
  using assms(1)
proof (rule for_each_invariant[where P = "\<lambda>t. \<exists>ps. apply_patterns ps b (fst st) = Inr (fst t)"])
  show "\<exists>ps. apply_patterns ps b (fst st) = Inr (fst st)" by (rule applications_refl)
next
  fix t x t'
  assume "x \<in> set xs" and "\<exists>ps. apply_patterns ps b (fst st) = Inr (fst t)"
    and "f t x = Inr t'"
  then show "\<exists>ps. apply_patterns ps b (fst st) = Inr (fst t')"
    using assms(2)[of x t t'] applications_trans by blast
qed

lemma tsoppi_pattern_application:
  assumes "tsoppi_pattern re_compile dir L1 eligible t row = Inr t'"
  shows "\<exists>ps. apply_patterns ps dir (fst t) = Inr (fst t')"
proof -
  obtain d lg pattern_text expected where "t = (d, lg)" "row = (pattern_text, expected)"
    by (cases t, cases row) auto
  then obtain rx n where "reclassify_matching_paths rx (fst t) dir = Inr (n, fst t')"
    using assms
    by (auto simp: tsoppi_pattern_def Let_def split: sum.splits prod.splits if_splits)
  then show ?thesis by (rule applications_reclassify)
qed

lemma tsoppi_patterns_are_applications:
  assumes "for_each (\<lambda>st1 file_pattern_type.
              for_each (tsoppi_pattern re_compile dir L1 eligible) st1
                (extraction_patterns file_pattern_type)) st cats = Inr st'"
  shows "\<exists>ps. apply_patterns ps dir (fst st) = Inr (fst st')"
  using assms
proof (rule for_each_applications)
  fix t x t'
  assume "for_each (tsoppi_pattern re_compile dir L1 eligible) t (extraction_patterns x) = Inr t'"
  then show "\<exists>ps. apply_patterns ps dir (fst t) = Inr (fst t')"
    by (rule for_each_applications) (rule tsoppi_pattern_application)
qed

lemma localapp_general_pattern_application:
  assumes "localapp_general_pattern re_compile dir t row = Inr t'"
  shows "\<exists>ps. apply_patterns ps dir (fst t) = Inr (fst t')"
proof -
  obtain d lg path_pattern expected where "t = (d, lg)" "row = (path_pattern, expected)"
    by (cases t, cases row) auto
  then obtain rx n where "reclassify_matching_paths rx (fst t) dir = Inr (n, fst t')"
    using assms
    by (auto simp: localapp_general_pattern_def split: sum.splits prod.splits if_splits)
  then show ?thesis by (rule applications_reclassify)
qed

lemma localapp_sample_pattern_application:
  assumes "localapp_sample_pattern re_compile dir sample_id pair_id t row = Inr t'"
  shows "\<exists>ps. apply_patterns ps dir (fst t) = Inr (fst t')"
proof -
  obtain d lg path_pattern expected where "t = (d, lg)" "row = (path_pattern, expected)"
    by (cases t, cases row) auto
  then obtain rx n where "reclassify_matching_paths rx (fst t) dir = Inr (n, fst t')"
    using assms
    by (auto simp: localapp_sample_pattern_def Let_def split: sum.splits prod.splits if_splits)
  then show ?thesis by (rule applications_reclassify)
qed

lemma localapp_classify_is_applications:
  assumes "localapp_classify re_compile extraction_patterns from_BCL DNA_sample_list
      RNA_sample_list dir listing lg = Inr st'"
  shows "\<exists>ps. apply_patterns ps dir (initial_paths listing dir) = Inr (fst st')"
proof -
  let ?general = "\<lambda>st file_pattern_type.
      if file_pattern_type = ''general_bcl'' \<and> \<not> from_BCL then Inr st
      else for_each (localapp_general_pattern re_compile dir) st
             (extraction_patterns file_pattern_type)"
  let ?samples = "\<lambda>st file_pattern_type.
      if file_pattern_type \<in> set [''sample_DNA_bcl'', ''sample_RNA_bcl''] \<and> \<not> from_BCL
      then Inr st
      else for_each
             (\<lambda>st2 sample.
                for_each (localapp_sample_pattern re_compile dir (fst sample) (fst (snd sample)))
                  st2 (extraction_patterns file_pattern_type))
             st
             (if file_pattern_type \<in> set [''sample_RNA'', ''sample_RNA_bcl'']
              then RNA_sample_list else DNA_sample_list)"
  obtain st1 where
    1: "for_each ?general (initial_paths listing dir, lg) [''general_all'', ''general_bcl'']
        = Inr st1"
    and 2: "for_each ?samples st1
        [''sample_DNA'', ''sample_RNA'', ''sample_DNA_bcl'', ''sample_RNA_bcl''] = Inr st'"
    using assms unfolding localapp_classify_def by (auto split: sum.splits)
  have a: "\<exists>ps. apply_patterns ps dir (fst (initial_paths listing dir, lg)) = Inr (fst st1)"
    using 1
  proof (rule for_each_applications)
    fix t x t'
    assume g: "?general t x = Inr t'"
    show "\<exists>ps. apply_patterns ps dir (fst t) = Inr (fst t')"
    proof (cases "x = ''general_bcl'' \<and> \<not> from_BCL")
      case True
      then have "t' = t" using g by simp
      then show ?thesis using applications_refl by simp
    next
      case False
      have "for_each (localapp_general_pattern re_compile dir) t (extraction_patterns x)
          = Inr t'"
        using g unfolding if_not_P[OF False] .
      then show ?thesis
        by (rule for_each_applications) (rule localapp_general_pattern_application)
    qed
  qed
  have b: "\<exists>ps. apply_patterns ps dir (fst st1) = Inr (fst st')"
    using 2
  proof (rule for_each_applications)
    fix t x t'
    assume g: "?samples t x = Inr t'"
    show "\<exists>ps. apply_patterns ps dir (fst t) = Inr (fst t')"
    proof (cases "x \<in> set [''sample_DNA_bcl'', ''sample_RNA_bcl''] \<and> \<not> from_BCL")
      case True
      then have "t' = t" using g by simp
      then show ?thesis using applications_refl by simp
    next
      case False
      let ?xna = "if x \<in> set [''sample_RNA'', ''sample_RNA_bcl'']
          then RNA_sample_list else DNA_sample_list"
      have "for_each
             (\<lambda>st2 sample.
                for_each (localapp_sample_pattern re_compile dir (fst sample) (fst (snd sample)))
                  st2 (extraction_patterns x))
             t ?xna = Inr t'"
        using g unfolding if_not_P[OF False] .
      then show ?thesis
      proof (rule for_each_applications)
        fix u sample u'
        assume "for_each (localapp_sample_pattern re_compile dir (fst sample) (fst (snd sample)))
            u (extraction_patterns x) = Inr u'"
        then show "\<exists>ps. apply_patterns ps dir (fst u) = Inr (fst u')"
          by (rule for_each_applications) (rule localapp_sample_pattern_application)
      qed
    qed
  qed
  show ?thesis using applications_trans[OF a b] by simp
qed

section \<open>The path lists and the export script\<close>

lemma write_path_record_cases:
  assumes "prefix (dir @ ''/'') p"
  shows "write_path_record dir (path_name dir) st (p, c) =
     (if c = ''S'' then
        Inr (st\<lparr>sfp_outfile := sfp_outfile st @ [output_line dir p],
                skipped_file_count := skipped_file_count st + 1\<rparr>)
      else if c = ''E'' then
        Inr (st\<lparr>efp_outfile := efp_outfile st @ [output_line dir p],
                selected_file_count := selected_file_count st + 1\<rparr>)
      else if c = ''I'' then
        Inr (st\<lparr>ignored_directory_count := ignored_directory_count st + 1\<rparr>)
      else Inl (Exit 20))"
  using assms by (simp add: write_path_record_def strip_path_prefix_def output_line_def)

lemma paths_with_status_Cons:
  "paths_with_status c ((p, s) # d) = (if s = c then p # paths_with_status c d else paths_with_status c d)"
  by (simp add: paths_with_status_def)

lemma write_path_records:
  assumes "\<forall>p \<in> set (map fst d). prefix (dir @ ''/'') p"
    and "set (map snd d) \<subseteq> {''S'', ''E'', ''I''}"
  shows "for_each (write_path_record dir (path_name dir)) st d =
     Inr \<lparr>sfp_outfile = sfp_outfile st @ map (output_line dir) (paths_with_status ''S'' d),
          efp_outfile = efp_outfile st @ map (output_line dir) (paths_with_status ''E'' d),
          skipped_file_count = skipped_file_count st + length (paths_with_status ''S'' d),
          selected_file_count = selected_file_count st + length (paths_with_status ''E'' d),
          ignored_directory_count =
            ignored_directory_count st + length (paths_with_status ''I'' d)\<rparr>"
  using assms
proof (induction d arbitrary: st)
  case Nil
  then show ?case by (simp add: paths_with_status_def)
next
  case (Cons pc d)
  obtain p c where pc: "pc = (p, c)" by (cases pc)
  have pre: "prefix (dir @ ''/'') p" using Cons.prems(1) pc by simp
  have c: "c = ''S'' \<or> c = ''E'' \<or> c = ''I''" using Cons.prems(2) pc by simp
  have rest: "\<forall>p \<in> set (map fst d). prefix (dir @ ''/'') p"
    "set (map snd d) \<subseteq> {''S'', ''E'', ''I''}"
    using Cons.prems by simp_all
  note ih = Cons.IH[OF rest]
  from c show ?case
  proof (elim disjE)
    assume "c = ''S''"
    then show ?thesis
      using pc by (simp add: write_path_record_cases[OF pre] ih paths_with_status_Cons)
  next
    assume "c = ''E''"
    then show ?thesis
      using pc by (simp add: write_path_record_cases[OF pre] ih paths_with_status_Cons)
  next
    assume "c = ''I''"
    then show ?thesis
      using pc by (simp add: write_path_record_cases[OF pre] ih paths_with_status_Cons)
  qed
qed

lemma write_path_lists_result:
  assumes "\<forall>p \<in> set (map fst d). prefix (dir @ ''/'') p"
    and "set (map snd d) \<subseteq> {''S'', ''E'', ''I''}"
  shows "write_path_lists dir d =
     Inr \<lparr>sfp_outfile = map (output_line dir) (paths_with_status ''S'' d),
          efp_outfile = map (output_line dir) (paths_with_status ''E'' d),
          skipped_file_count = length (paths_with_status ''S'' d),
          selected_file_count = length (paths_with_status ''E'' d),
          ignored_directory_count = length (paths_with_status ''I'' d)\<rparr>"
  by (simp add: write_path_lists_def write_path_records[OF assms] output_start_def)

text \<open>
  C6.  When no path of the dictionary has status \<open>E\<close> (and the paths can be made
  relative, so that the lists are written), the run ends like this: the export list is
  empty, no export script is written and none is run, the log ends with the message that
  no files qualified for extraction, and the exit status is 0.
\<close>

theorem no_export_no_packaging:
  assumes none: "''E'' \<notin> set (map snd d)"
    and codes: "set (map snd d) \<subseteq> {''S'', ''E'', ''I''}"
    and pre: "\<forall>p \<in> set (map fst d). prefix (input_dir @ ''/'') p"
  shows "create_output_files cfg input_dir d =
     Inr \<lparr>skipped_file_path_list = map (output_line input_dir) (paths_with_status ''S'' d),
          export_file_path_list = [],
          export_script_file = None,
          export_script_run = False,
          end_log = [LogInfo ''Creating output files...'',
                     LogInfo ''No files qualified for extraction. Exiting.''],
          exit_status = 0\<rparr>"
proof -
  have "paths_with_status ''E'' d = []"
    using none by (force simp: paths_with_status_def filter_empty_conv)
  then show ?thesis
    by (simp add: create_output_files_def write_path_lists_result[OF pre codes])
qed


theorem no_export_no_packaging_witness:
  "create_output_files
     \<lparr>parallel_export_and_md5sum = False, archive_level_md5sum = False,
      generate_export_script_only = False,
      outfile_script_stdout_log_path = ''/out/r_stdout.log'',
      outfile_script_stderr_log_path = ''/out/r_stderr.log'',
      outfile_archive_path = ''/out/r.tar.gpg'', outfile_dir_parent_path = ''/'',
      outfile_file_path_list = ''/out/r_files_to_export.txt'',
      outfile_password_path = ''/pw'',
      outfile_archive_level_md5_path = ''/out/r.tar.gpg.md5'',
      outfile_file_level_md5_path = ''/out/r_individual_files.md5''\<rparr>
     ''/in'' [(''/in/unrelated.txt'', ''S''), (''/in/d'', ''S'')]
   = Inr \<lparr>skipped_file_path_list = [''in/unrelated.txt'' @ [CHR 0x0A], ''in/d'' @ [CHR 0x0A]],
          export_file_path_list = [],
          export_script_file = None,
          export_script_run = False,
          end_log = [LogInfo ''Creating output files...'',
                     LogInfo ''No files qualified for extraction. Exiting.''],
          exit_status = 0\<rparr>"
proof -
  let ?d = "[(''/in/unrelated.txt'', ''S''), (''/in/d'', ''S'')]"
  have none: "''E'' \<notin> set (map snd ?d)" by simp
  have codes: "set (map snd ?d) \<subseteq> {''S'', ''E'', ''I''}" by simp
  have pre: "\<forall>p \<in> set (map fst ?d). prefix (''/in'' @ ''/'') p" by simp
  have lines: "map (output_line ''/in'') (paths_with_status ''S'' ?d)
      = [''in/unrelated.txt'' @ [CHR 0x0A], ''in/d'' @ [CHR 0x0A]]"
    by code_simp
  show ?thesis
    using no_export_no_packaging[OF none codes pre] lines by simp
qed

section \<open>Every listed path has one status\<close>

lemma codes_update: "set (map snd (AList.update k v d)) \<subseteq> insert v (set (map snd d))"
  by (induction d) auto

lemma codes_set_all: "set (map snd (set_all v ks d)) \<subseteq> insert v (set (map snd d))"
proof (induction ks arbitrary: d)
  case Nil
  then show ?case by (auto simp: set_all_def)
next
  case (Cons k ks)
  show ?case
    using Cons.IH[of "AList.update k v d"] codes_update[of k v d]
    by (auto simp: set_all_Cons)
qed

lemma mark_matching_path_codes:
  assumes "mark_matching_path b d q = Inr d'" and "has_key d q"
  shows "set (map snd d') \<subseteq> {''E'', ''I''} \<union> set (map snd d)"
proof -
  obtain vs where "d' = set_all ''I'' vs (AList.update q ''E'' d)"
    using assms by (auto simp: mark_matching_path_marked split: sum.splits)
  then show ?thesis
    using codes_set_all[of "''I''" vs "AList.update q ''E'' d"] codes_update[of q "''E''" d]
    by auto
qed

lemma reclassify_codes:
  assumes "reclassify_matching_paths pat d b = Inr (n, d')"
    and "set (map snd d) \<subseteq> {''S'', ''E'', ''I''}"
  shows "set (map snd d') \<subseteq> {''S'', ''E'', ''I''}"
proof -
  from assms(1) have run: "for_each (mark_matching_path b) d (filter pat (map fst d)) = Inr d'"
    by (auto simp: reclassify_matching_paths_def Let_def split: sum.splits)
  have "map fst d' = map fst d \<and> set (map snd d') \<subseteq> {''S'', ''E'', ''I''}"
    using run
  proof (rule for_each_invariant
      [where P = "\<lambda>t. map fst t = map fst d \<and> set (map snd t) \<subseteq> {''S'', ''E'', ''I''}"])
    show "map fst d = map fst d \<and> set (map snd d) \<subseteq> {''S'', ''E'', ''I''}"
      using assms(2) by simp
  next
    fix t x t'
    assume x: "x \<in> set (filter pat (map fst d))"
      and t: "map fst t = map fst d \<and> set (map snd t) \<subseteq> {''S'', ''E'', ''I''}"
      and s: "mark_matching_path b t x = Inr t'"
    have hk: "has_key t x" using x t by (simp add: has_key_def)
    show "map fst t' = map fst d \<and> set (map snd t') \<subseteq> {''S'', ''E'', ''I''}"
      using mark_matching_path_keys[OF s hk] mark_matching_path_codes[OF s hk] t by auto
  qed
  then show ?thesis by simp
qed

lemma apply_patterns_codes:
  assumes "apply_patterns ps b d = Inr d'"
    and "set (map snd d) \<subseteq> {''S'', ''E'', ''I''}"
  shows "set (map snd d') \<subseteq> {''S'', ''E'', ''I''}"
  using assms(1)[unfolded apply_patterns_def]
proof (rule for_each_invariant[where P = "\<lambda>t. set (map snd t) \<subseteq> {''S'', ''E'', ''I''}"])
  show "set (map snd d) \<subseteq> {''S'', ''E'', ''I''}" by (rule assms(2))
next
  fix t x t'
  assume t: "set (map snd t) \<subseteq> {''S'', ''E'', ''I''}" and "apply_pattern b t x = Inr t'"
  then obtain n where "reclassify_matching_paths x t b = Inr (n, t')"
    by (auto simp: apply_pattern_def split: sum.splits)
  then show "set (map snd t') \<subseteq> {''S'', ''E'', ''I''}"
    using t by (rule reclassify_codes)
qed

lemma fold_update_keys:
  "set (map fst (fold (\<lambda>item. AList.update item v) listing d)) = set listing \<union> set (map fst d)"
proof (induction listing arbitrary: d)
  case Nil
  then show ?case by simp
next
  case (Cons item listing)
  have "set (map fst (AList.update item v d)) = insert item (set (map fst d))"
    by (simp add: dom_update)
  then show ?case using Cons.IH[of "AList.update item v d"] by simp
qed

lemma fold_update_codes:
  "set (map snd (fold (\<lambda>item. AList.update item v) listing d)) \<subseteq> insert v (set (map snd d))"
proof (induction listing arbitrary: d)
  case Nil
  then show ?case by auto
next
  case (Cons item listing)
  have "set (map snd (fold (\<lambda>item. AList.update item v) listing (AList.update item v d)))
      \<subseteq> insert v (set (map snd (AList.update item v d)))"
    by (rule Cons.IH)
  also have "\<dots> \<subseteq> insert v (set (map snd d))"
    using codes_update[of item v d] by blast
  finally show ?case by simp
qed

lemma initial_paths_keys:
  "set (map fst (initial_paths listing root)) = set listing - {root @ ''/''}"
proof -
  let ?F = "fold (\<lambda>item. AList.update item ''S'') listing []"
  have k: "set (map fst ?F) = set listing" using fold_update_keys[of "''S''" listing "[]"] by simp
  show ?thesis
  proof (cases "has_key ?F (root @ ''/'')")
    case True
    have "set (map fst (AList.delete (root @ ''/'') ?F)) = set (map fst ?F) - {root @ ''/''}"
      unfolding delete_keys by (rule set_removeAll)
    then show ?thesis using True k by (simp add: initial_paths_def)
  next
    case False
    then have "root @ ''/'' \<notin> set listing" using k by (simp add: has_key_def)
    then show ?thesis using False k by (simp add: initial_paths_def)
  qed
qed

lemma initial_paths_codes: "set (map snd (initial_paths listing root)) \<subseteq> {''S''}"
proof -
  let ?F = "fold (\<lambda>item. AList.update item ''S'') listing []"
  have c: "set (map snd ?F) \<subseteq> {''S''}" using fold_update_codes[of "''S''" listing "[]"] by simp
  have "set (AList.delete (root @ ''/'') ?F) \<subseteq> set ?F"
    by (auto simp: AList.delete_eq)
  then have "set (map snd (AList.delete (root @ ''/'') ?F)) \<subseteq> set (map snd ?F)"
    by auto
  then show ?thesis using c by (auto simp: initial_paths_def Let_def)
qed


lemma dict_union_distinct: "distinct (map fst a) \<Longrightarrow> distinct (map fst (dict_union a b))"
  unfolding dict_union_def
  by (induction b arbitrary: a) (auto simp: distinct_update)

lemma dict_union_codes:
  "set (map snd (dict_union a b)) \<subseteq> set (map snd a) \<union> set (map snd b)"
  unfolding dict_union_def
proof (induction b arbitrary: a)
  case Nil
  then show ?case by simp
next
  case (Cons kv b)
  obtain k v where kv: "kv = (k, v)" by (cases kv)
  have "set (map snd (fold (\<lambda>(k, v). AList.update k v) b (AList.update k v a)))
      \<subseteq> set (map snd (AList.update k v a)) \<union> set (map snd b)"
    by (rule Cons.IH)
  also have "\<dots> \<subseteq> insert v (set (map snd a)) \<union> set (map snd b)"
    using codes_update[of k v a] by blast
  finally show ?case using kv by auto
qed

lemma tsoppi_pattern_keeps:
  assumes "tsoppi_pattern re_compile dir L1 eligible (d, lg) row = Inr (d', lg')"
    and "distinct (map fst d) \<and> set (map snd d) \<subseteq> {''S'', ''E'', ''I''}"
  shows "distinct (map fst d') \<and> set (map snd d') \<subseteq> {''S'', ''E'', ''I''}"
proof -
  obtain pattern_text expected where "row = (pattern_text, expected)" by (cases row)
  then obtain rx n where "reclassify_matching_paths rx d dir = Inr (n, d')"
    using assms(1)
    by (auto simp: tsoppi_pattern_def Let_def split: sum.splits prod.splits if_splits)
  then show ?thesis
    using reclassify_keys[of rx d dir n d'] reclassify_codes[of rx d dir n d'] assms(2)
    by simp
qed

lemma tsoppi_patterns_keep:
  assumes "for_each (\<lambda>st1 file_pattern_type.
              for_each (tsoppi_pattern re_compile dir L1 eligible) st1
                (extraction_patterns file_pattern_type)) (d, lg) cats = Inr (d', lg')"
    and "distinct (map fst d) \<and> set (map snd d) \<subseteq> {''S'', ''E'', ''I''}"
  shows "distinct (map fst d') \<and> set (map snd d') \<subseteq> {''S'', ''E'', ''I''}"
proof -
  let ?P = "\<lambda>st. distinct (map fst (fst st)) \<and> set (map snd (fst st)) \<subseteq> {''S'', ''E'', ''I''}"
  have step: "?P t'" if "?P t" and "tsoppi_pattern re_compile dir L1 eligible t row = Inr t'"
    for t row t'
    using tsoppi_pattern_keeps[of re_compile dir L1 eligible "fst t" "snd t" row "fst t'" "snd t'"]
      that by simp
  have inner: "?P t'" if "?P t"
    and "for_each (tsoppi_pattern re_compile dir L1 eligible) t rows = Inr t'" for t rows t'
    using that(2,1) by (rule for_each_invariant) (use step in blast)
  have "?P (d', lg')"
    using assms(1)
  proof (rule for_each_invariant[where P = ?P])
    show "?P (d, lg)" using assms(2) by simp
  next
    fix t x t'
    assume "?P t"
      and "for_each (tsoppi_pattern re_compile dir L1 eligible) t (extraction_patterns x) = Inr t'"
    then show "?P t'" by (rule inner)
  qed
  then show ?thesis by simp
qed

lemma tsoppi_subdir_keeps:
  assumes run: "tsoppi_subdir re_compile extraction_patterns req ids dir (d, lg) entry
      = Inr (d', lg')"
    and ok: "distinct (map fst d) \<and> set (map snd d) \<subseteq> {''S'', ''E'', ''I''}"
  shows "distinct (map fst d') \<and> set (map snd d') \<subseteq> {''S'', ''E'', ''I''}"
proof -
  have single: "distinct (map fst (dict_union d [(L1_path entry, ''S'')]))
      \<and> set (map snd (dict_union d [(L1_path entry, ''S'')])) \<subseteq> {''S'', ''E'', ''I''}"
    using ok dict_union_distinct[of d] dict_union_codes[of d "[(L1_path entry, ''S'')]"]
    by auto
  show ?thesis
  proof (cases "L1_is_dir entry")
    case False
    then show ?thesis using run single by (simp add: tsoppi_subdir_def)
  next
    case True
    note dir = this
    show ?thesis
    proof (cases "sample_list_file entry")
      case None
      then show ?thesis using run dir ok by (simp add: tsoppi_subdir_def)
    next
      case (Some sl_infile)
      then obtain sl where
        sl: "read_sample_list req ids (sample_list_found_log lg entry) sl_infile = Inr sl"
        using run dir by (auto simp: tsoppi_subdir_def split: sum.splits)
      show ?thesis
      proof (cases "length (eligible_sample_dict sl) \<noteq> sample_count sl")
        case True
        then show ?thesis using run dir Some sl single by (simp add: tsoppi_subdir_def)
      next
        case False
        let ?start = "(initial_paths (L1_listing entry) (L1_path entry),
            sl_log sl @ [LogInfo ('' - All listed samples are eligible for''
               @ '' extraction. Processing the file list...'')])"
        let ?loop = "for_each (\<lambda>st1 file_pattern_type.
            for_each (tsoppi_pattern re_compile dir (L1_path entry) (eligible_sample_dict sl))
              st1 (extraction_patterns file_pattern_type))
            ?start (valid_pattern_categories (eligible_sample_dict sl))"
        have "(case ?loop of Inl e \<Rightarrow> Inl e
               | Inr (available_L1, lg2) \<Rightarrow> Inr (dict_union d available_L1, lg2))
              = Inr (d', lg')"
          using run dir Some sl False by (simp add: tsoppi_subdir_def)
        then obtain d1 where loop: "?loop = Inr (d1, lg')" and d': "d' = dict_union d d1"
          by (auto split: sum.splits prod.splits)
        have d1: "distinct (map fst d1) \<and> set (map snd d1) \<subseteq> {''S'', ''E'', ''I''}"
          using loop
        proof (rule tsoppi_patterns_keep)
          show "distinct (map fst (initial_paths (L1_listing entry) (L1_path entry)))
              \<and> set (map snd (initial_paths (L1_listing entry) (L1_path entry)))
                  \<subseteq> {''S'', ''E'', ''I''}"
            using distinct_initial_paths
              initial_paths_codes[of "L1_listing entry" "L1_path entry"]
            by auto
        qed
        have c: "set (map snd d') \<subseteq> set (map snd d) \<union> set (map snd d1)"
          unfolding d' by (rule dict_union_codes)
        have "distinct (map fst d')"
          unfolding d' using ok by (intro dict_union_distinct) simp
        then show ?thesis using c ok d1 by blast
      qed
    qed
  qed
qed

lemma tsoppi_classify_keeps:
  assumes "tsoppi_classify re_compile extraction_patterns req ids dir entries = Inr (d, lg)"
  shows "distinct (map fst d) \<and> set (map snd d) \<subseteq> {''S'', ''E'', ''I''}"
proof -
  let ?P = "\<lambda>st. distinct (map fst (fst st)) \<and> set (map snd (fst st)) \<subseteq> {''S'', ''E'', ''I''}"
  have "?P (d, lg)"
    using assms[unfolded tsoppi_classify_def]
  proof (rule for_each_invariant[where P = ?P])
    show "?P ([], [LogInfo ''Processing the specified TSOPPI directory data...'',
                   LogInfo ''Checking the directory content...''])"
      by simp
  next
    fix t x t'
    assume "?P t" and "tsoppi_subdir re_compile extraction_patterns req ids dir t x = Inr t'"
    then show "?P t'"
      using tsoppi_subdir_keeps[of re_compile extraction_patterns req ids dir
          "fst t" "snd t" x "fst t'" "snd t'"]
      by simp
  qed
  then show ?thesis by simp
qed


lemma paths_with_status_iff:
  "p \<in> set (paths_with_status c d) \<longleftrightarrow> (p, c) \<in> set d"
  by (force simp: paths_with_status_def)

lemma paths_with_status_cover:
  assumes "set (map snd d) \<subseteq> {''S'', ''E'', ''I''}"
  shows "set (paths_with_status ''S'' d) \<union> set (paths_with_status ''E'' d)
      \<union> set (paths_with_status ''I'' d) = set (map fst d)"
proof (rule set_eqI)
  fix p
  show "p \<in> set (paths_with_status ''S'' d) \<union> set (paths_with_status ''E'' d)
      \<union> set (paths_with_status ''I'' d) \<longleftrightarrow> p \<in> set (map fst d)"
  proof
    assume "p \<in> set (paths_with_status ''S'' d) \<union> set (paths_with_status ''E'' d)
      \<union> set (paths_with_status ''I'' d)"
    then show "p \<in> set (map fst d)" by (force simp: paths_with_status_iff)
  next
    assume "p \<in> set (map fst d)"
    then obtain c where pc: "(p, c) \<in> set d" by auto
    then have "c \<in> set (map snd d)" by force
    then have "c = ''S'' \<or> c = ''E'' \<or> c = ''I''" using assms by blast
    then show "p \<in> set (paths_with_status ''S'' d) \<union> set (paths_with_status ''E'' d)
      \<union> set (paths_with_status ''I'' d)"
      using pc by (auto simp: paths_with_status_iff)
  qed
qed

lemma paths_with_status_disjoint:
  assumes "distinct (map fst d)" and "a \<noteq> b"
  shows "set (paths_with_status a d) \<inter> set (paths_with_status b d) = {}"
  using assms eq_key_imp_eq_value[of d] by (auto simp: paths_with_status_iff)

lemma paths_with_status_lengths:
  assumes "set (map snd d) \<subseteq> {''S'', ''E'', ''I''}"
  shows "length (paths_with_status ''S'' d) + length (paths_with_status ''E'' d)
      + length (paths_with_status ''I'' d) = length d"
  using assms
proof (induction d)
  case Nil
  then show ?case by (simp add: paths_with_status_def)
next
  case (Cons pc d)
  obtain p c where pc: "pc = (p, c)" by (cases pc)
  have "c = ''S'' \<or> c = ''E'' \<or> c = ''I''" using Cons.prems pc by simp
  moreover have "length (paths_with_status ''S'' d) + length (paths_with_status ''E'' d)
      + length (paths_with_status ''I'' d) = length d"
    using Cons by simp
  ultimately show ?case using pc by (auto simp: paths_with_status_Cons)
qed

lemma distinct_paths_with_status:
  "distinct (map fst d) \<Longrightarrow> distinct (paths_with_status c d)"
  by (simp add: paths_with_status_def distinct_map_filter)

lemma output_line_inject:
  assumes "prefix (dir @ ''/'') p" and "prefix (dir @ ''/'') q"
    and "output_line dir p = output_line dir q"
  shows "p = q"
proof -
  obtain p' q' where p: "p = (dir @ ''/'') @ p'" and q: "q = (dir @ ''/'') @ q'"
    using assms(1,2) by (auto simp: prefix_def)
  have "drop (length (dir @ ''/'')) p = p'" "drop (length (dir @ ''/'')) q = q'"
    using p q by simp_all
  then have "p' = q'" using assms(3) by (simp add: output_line_def)
  then show ?thesis using p q by simp
qed

lemma distinct_output_lines:
  assumes "distinct (map fst d)" and "\<forall>p \<in> set (map fst d). prefix (dir @ ''/'') p"
  shows "distinct (map (output_line dir) (paths_with_status ''S'' d)
      @ map (output_line dir) (paths_with_status ''E'' d))"
proof -
  let ?ps = "paths_with_status ''S'' d @ paths_with_status ''E'' d"
  have d: "distinct ?ps"
    using distinct_paths_with_status[OF assms(1)]
      paths_with_status_disjoint[OF assms(1), of "''S''" "''E''"]
    by simp
  have sub: "set ?ps \<subseteq> set (map fst d)"
    by (force simp: paths_with_status_iff)
  have inj: "inj_on (output_line dir) (set ?ps)"
  proof (rule inj_onI)
    fix p q
    assume "p \<in> set ?ps" "q \<in> set ?ps" "output_line dir p = output_line dir q"
    then show "p = q" using sub assms(2) output_line_inject[of dir p q] by blast
  qed
  have "distinct (map (output_line dir) ?ps)"
    by (rule iffD2[OF distinct_map]) (intro conjI d inj)
  then show ?thesis by (simp only: map_append)
qed

lemma dict_union_keys:
  "set (map fst (dict_union a b)) = set (map fst a) \<union> set (map fst b)"
  unfolding dict_union_def
proof (induction b arbitrary: a)
  case Nil
  then show ?case by simp
next
  case (Cons kv b)
  obtain k v where kv: "kv = (k, v)" by (cases kv)
  have "set (map fst (AList.update k v a)) = insert k (set (map fst a))"
    by (simp add: dom_update)
  then show ?case using Cons.IH[of "AList.update k v a"] kv by auto
qed

lemma tsoppi_subdir_eligible:
  assumes "L1_is_dir entry" and "sample_list_file entry = Some sl_infile"
    and "read_sample_list req ids (sample_list_found_log lg entry) sl_infile = Inr sl"
    and "length (eligible_sample_dict sl) = sample_count sl"
    and "tsoppi_subdir re_compile extraction_patterns req ids dir (d, lg) entry = Inr (d', lg')"
  shows "\<exists>d1 lg1. for_each (\<lambda>st1 file_pattern_type.
            for_each (tsoppi_pattern re_compile dir (L1_path entry) (eligible_sample_dict sl))
              st1 (extraction_patterns file_pattern_type))
            (initial_paths (L1_listing entry) (L1_path entry), lg1)
            (valid_pattern_categories (eligible_sample_dict sl)) = Inr (d1, lg')
          \<and> d' = dict_union d d1"
proof -
  let ?start = "(initial_paths (L1_listing entry) (L1_path entry),
      sl_log sl @ [LogInfo ('' - All listed samples are eligible for''
         @ '' extraction. Processing the file list...'')])"
  let ?loop = "for_each (\<lambda>st1 file_pattern_type.
      for_each (tsoppi_pattern re_compile dir (L1_path entry) (eligible_sample_dict sl))
        st1 (extraction_patterns file_pattern_type))
      ?start (valid_pattern_categories (eligible_sample_dict sl))"
  have "(case ?loop of Inl e \<Rightarrow> Inl e
         | Inr (available_L1, lg2) \<Rightarrow> Inr (dict_union d available_L1, lg2))
        = Inr (d', lg')"
    using assms by (simp add: tsoppi_subdir_def)
  then obtain d1 where "?loop = Inr (d1, lg')" and "d' = dict_union d d1"
    by (auto split: sum.splits prod.splits)
  then show ?thesis by blast
qed

lemma tsoppi_eligible_subdir_keys:
  assumes "L1_is_dir entry" and "sample_list_file entry = Some sl_infile"
    and "read_sample_list req ids (sample_list_found_log lg entry) sl_infile = Inr sl"
    and "length (eligible_sample_dict sl) = sample_count sl"
    and "tsoppi_subdir re_compile extraction_patterns req ids dir (d, lg) entry = Inr (d', lg')"
  shows "set (map fst d')
      = set (map fst d) \<union> (set (L1_listing entry) - {L1_path entry @ ''/''})"
proof -
  obtain d1 lg1 where loop: "for_each (\<lambda>st1 file_pattern_type.
            for_each (tsoppi_pattern re_compile dir (L1_path entry) (eligible_sample_dict sl))
              st1 (extraction_patterns file_pattern_type))
            (initial_paths (L1_listing entry) (L1_path entry), lg1)
            (valid_pattern_categories (eligible_sample_dict sl)) = Inr (d1, lg')"
    and d': "d' = dict_union d d1"
    using tsoppi_subdir_eligible[OF assms] by blast
  obtain ps where "apply_patterns ps dir (initial_paths (L1_listing entry) (L1_path entry))
      = Inr d1"
    using tsoppi_patterns_are_applications[OF loop] by auto
  then have "map fst d1 = map fst (initial_paths (L1_listing entry) (L1_path entry))"
    by (rule apply_patterns_keys)
  then have "set (map fst d1) = set (L1_listing entry) - {L1_path entry @ ''/''}"
    using initial_paths_keys[of "L1_listing entry" "L1_path entry"] by simp
  then show ?thesis unfolding d' dict_union_keys by simp
qed

lemma tsoppi_subdir_keys_grow:
  assumes run: "tsoppi_subdir re_compile extraction_patterns req ids dir (d, lg) entry
      = Inr (d', lg')"
  shows "set (map fst d) \<subseteq> set (map fst d')"
proof (cases "L1_is_dir entry")
  case False
  then have "d' = dict_union d [(L1_path entry, ''S'')]"
    using run by (simp add: tsoppi_subdir_def)
  then show ?thesis using dict_union_keys[of d "[(L1_path entry, ''S'')]"] by auto
next
  case True
  note dir = this
  show ?thesis
  proof (cases "sample_list_file entry")
    case None
    then show ?thesis using run dir by (simp add: tsoppi_subdir_def)
  next
    case (Some sl_infile)
    then obtain sl where
      sl: "read_sample_list req ids (sample_list_found_log lg entry) sl_infile = Inr sl"
      using run dir by (auto simp: tsoppi_subdir_def split: sum.splits)
    show ?thesis
    proof (cases "length (eligible_sample_dict sl) = sample_count sl")
      case False
      then have "d' = dict_union d [(L1_path entry, ''S'')]"
        using run dir Some sl by (simp add: tsoppi_subdir_def)
      then show ?thesis using dict_union_keys[of d "[(L1_path entry, ''S'')]"] by auto
    next
      case True
      show ?thesis
        using tsoppi_eligible_subdir_keys[OF dir Some sl True run] by blast
    qed
  qed
qed

lemma tsoppi_subdirs_keys_grow:
  assumes "for_each (tsoppi_subdir re_compile extraction_patterns req ids dir) st entries
      = Inr st'"
  shows "set (map fst (fst st)) \<subseteq> set (map fst (fst st'))"
  using assms
proof (rule for_each_invariant[where P = "\<lambda>t. set (map fst (fst st)) \<subseteq> set (map fst (fst t))"])
  show "set (map fst (fst st)) \<subseteq> set (map fst (fst st))" by simp
next
  fix t x t'
  assume "set (map fst (fst st)) \<subseteq> set (map fst (fst t))"
    and "tsoppi_subdir re_compile extraction_patterns req ids dir t x = Inr t'"
  then show "set (map fst (fst st)) \<subseteq> set (map fst (fst t'))"
    using tsoppi_subdir_keys_grow[of re_compile extraction_patterns req ids dir
        "fst t" "snd t" x "fst t'" "snd t'"]
    by auto
qed

lemma tsoppi_classify_lists_eligible_subdir:
  assumes all: "tsoppi_classify re_compile extraction_patterns req ids dir
        (before @ entry # after) = Inr (d2, lg2)"
    and before: "tsoppi_classify re_compile extraction_patterns req ids dir before
        = Inr (d0, lg0)"
    and dir: "L1_is_dir entry" and slf: "sample_list_file entry = Some sl_infile"
    and sl: "read_sample_list req ids (sample_list_found_log lg0 entry) sl_infile = Inr sl"
    and elig: "length (eligible_sample_dict sl) = sample_count sl"
  shows "set (L1_listing entry) - {L1_path entry @ ''/''} \<subseteq> set (map fst d2)"
proof -
  let ?step = "tsoppi_subdir re_compile extraction_patterns req ids dir"
  obtain st3 where 3: "?step (d0, lg0) entry = Inr st3"
    and rest: "for_each ?step st3 after = Inr (d2, lg2)"
    using all before unfolding tsoppi_classify_def
    by (auto simp: for_each_append split: sum.splits)
  obtain d3 lg3 where st3: "st3 = (d3, lg3)" by (cases st3)
  have "set (L1_listing entry) - {L1_path entry @ ''/''} \<subseteq> set (map fst d3)"
    using tsoppi_eligible_subdir_keys[OF dir slf sl elig 3[unfolded st3]] by blast
  moreover have "set (map fst d3) \<subseteq> set (map fst d2)"
    using tsoppi_subdirs_keys_grow[OF rest] st3 by simp
  ultimately show ?thesis by blast
qed

text \<open>
  C5.  The classification of a LocalApp directory leaves every path of its listing, the
  directory itself apart, as a key of the dictionary, once, with one of the status codes
  \<open>S\<close>, \<open>E\<close> and \<open>I\<close>.  The dictionary merged from the TSOPPI directories has no key
  twice and these status codes only, and every path of the listing of a patient directory
  whose samples are all eligible, the directory itself apart, is one of its keys.  For such a
  dictionary, whose paths all lie under the input directory, the loop over it writes the
  paths with status \<open>S\<close> to the skip list and the paths with status \<open>E\<close> to the export
  list and counts the paths with status \<open>I\<close>; no line is written twice, to either list;
  and the three groups of paths are disjoint and make up all keys of the dictionary.
\<close>

theorem output_lists_partition_the_map:
  "(localapp_classify re_compile extraction_patterns from_BCL DNA_sample_list RNA_sample_list
        input_dir listing lg1 = Inr (d1, lg1') \<longrightarrow>
      set (map fst d1) = set listing - {input_dir @ ''/''} \<and> distinct (map fst d1)
      \<and> set (map snd d1) \<subseteq> {''S'', ''E'', ''I''})
   \<and> (tsoppi_classify re_compile extraction_patterns req ids input_dir entries = Inr (d2, lg)
      \<longrightarrow> distinct (map fst d2) \<and> set (map snd d2) \<subseteq> {''S'', ''E'', ''I''}
        \<and> (entries = before @ entry # after
            \<and> tsoppi_classify re_compile extraction_patterns req ids input_dir before
                = Inr (d0, lg0)
            \<and> L1_is_dir entry \<and> sample_list_file entry = Some sl_infile
            \<and> read_sample_list req ids (sample_list_found_log lg0 entry) sl_infile = Inr sl
            \<and> length (eligible_sample_dict sl) = sample_count sl
            \<longrightarrow> set (L1_listing entry) - {L1_path entry @ ''/''} \<subseteq> set (map fst d2)))
   \<and> (distinct (map fst d) \<and> set (map snd d) \<subseteq> {''S'', ''E'', ''I''}
       \<and> (\<forall>p \<in> set (map fst d). prefix (input_dir @ ''/'') p) \<longrightarrow>
       write_path_lists input_dir d =
         Inr \<lparr>sfp_outfile = map (output_line input_dir) (paths_with_status ''S'' d),
              efp_outfile = map (output_line input_dir) (paths_with_status ''E'' d),
              skipped_file_count = length (paths_with_status ''S'' d),
              selected_file_count = length (paths_with_status ''E'' d),
              ignored_directory_count = length (paths_with_status ''I'' d)\<rparr>
       \<and> distinct (map (output_line input_dir) (paths_with_status ''S'' d)
            @ map (output_line input_dir) (paths_with_status ''E'' d))
       \<and> set (paths_with_status ''S'' d) \<union> set (paths_with_status ''E'' d)
            \<union> set (paths_with_status ''I'' d) = set (map fst d)
       \<and> set (paths_with_status ''S'' d) \<inter> set (paths_with_status ''E'' d) = {}
       \<and> set (paths_with_status ''S'' d) \<inter> set (paths_with_status ''I'' d) = {}
       \<and> set (paths_with_status ''E'' d) \<inter> set (paths_with_status ''I'' d) = {}
       \<and> length (paths_with_status ''S'' d) + length (paths_with_status ''E'' d)
            + length (paths_with_status ''I'' d) = length d)"
proof (intro conjI impI)
  assume "localapp_classify re_compile extraction_patterns from_BCL DNA_sample_list
      RNA_sample_list input_dir listing lg1 = Inr (d1, lg1')"
  then obtain ps where run: "apply_patterns ps input_dir (initial_paths listing input_dir) = Inr d1"
    using localapp_classify_is_applications by fastforce
  have k: "map fst d1 = map fst (initial_paths listing input_dir)"
    using run by (rule apply_patterns_keys)
  show "set (map fst d1) = set listing - {input_dir @ ''/''}"
    unfolding k by (rule initial_paths_keys)
  show "distinct (map fst d1)"
    unfolding k by (rule distinct_initial_paths)
  show "set (map snd d1) \<subseteq> {''S'', ''E'', ''I''}"
    using run
  proof (rule apply_patterns_codes)
    show "set (map snd (initial_paths listing input_dir)) \<subseteq> {''S'', ''E'', ''I''}"
      using initial_paths_codes[of listing input_dir] by blast
  qed
next
  assume "tsoppi_classify re_compile extraction_patterns req ids input_dir entries = Inr (d2, lg)"
  then have "distinct (map fst d2) \<and> set (map snd d2) \<subseteq> {''S'', ''E'', ''I''}"
    by (rule tsoppi_classify_keeps)
  then show "distinct (map fst d2)" and "set (map snd d2) \<subseteq> {''S'', ''E'', ''I''}"
    by simp_all
next
  assume all: "tsoppi_classify re_compile extraction_patterns req ids input_dir entries
      = Inr (d2, lg)"
    and e: "entries = before @ entry # after
      \<and> tsoppi_classify re_compile extraction_patterns req ids input_dir before = Inr (d0, lg0)
      \<and> L1_is_dir entry \<and> sample_list_file entry = Some sl_infile
      \<and> read_sample_list req ids (sample_list_found_log lg0 entry) sl_infile = Inr sl
      \<and> length (eligible_sample_dict sl) = sample_count sl"
  show "set (L1_listing entry) - {L1_path entry @ ''/''} \<subseteq> set (map fst d2)"
    using all e tsoppi_classify_lists_eligible_subdir
      [of re_compile extraction_patterns req ids input_dir before entry after d2 lg d0 lg0
          sl_infile sl]
    by blast
next
  assume a: "distinct (map fst d) \<and> set (map snd d) \<subseteq> {''S'', ''E'', ''I''}
       \<and> (\<forall>p \<in> set (map fst d). prefix (input_dir @ ''/'') p)"
  then have dist: "distinct (map fst d)" and codes: "set (map snd d) \<subseteq> {''S'', ''E'', ''I''}"
    and pre: "\<forall>p \<in> set (map fst d). prefix (input_dir @ ''/'') p"
    by blast+
  show "write_path_lists input_dir d =
         Inr \<lparr>sfp_outfile = map (output_line input_dir) (paths_with_status ''S'' d),
              efp_outfile = map (output_line input_dir) (paths_with_status ''E'' d),
              skipped_file_count = length (paths_with_status ''S'' d),
              selected_file_count = length (paths_with_status ''E'' d),
              ignored_directory_count = length (paths_with_status ''I'' d)\<rparr>"
    using pre codes by (rule write_path_lists_result)
  show "distinct (map (output_line input_dir) (paths_with_status ''S'' d)
            @ map (output_line input_dir) (paths_with_status ''E'' d))"
    using dist pre by (rule distinct_output_lines)
  show "set (paths_with_status ''S'' d) \<union> set (paths_with_status ''E'' d)
            \<union> set (paths_with_status ''I'' d) = set (map fst d)"
    using codes by (rule paths_with_status_cover)
  show "set (paths_with_status ''S'' d) \<inter> set (paths_with_status ''E'' d) = {}"
    using dist by (rule paths_with_status_disjoint) simp
  show "set (paths_with_status ''S'' d) \<inter> set (paths_with_status ''I'' d) = {}"
    using dist by (rule paths_with_status_disjoint) simp
  show "set (paths_with_status ''E'' d) \<inter> set (paths_with_status ''I'' d) = {}"
    using dist by (rule paths_with_status_disjoint) simp
  show "length (paths_with_status ''S'' d) + length (paths_with_status ''E'' d)
            + length (paths_with_status ''I'' d) = length d"
    using codes by (rule paths_with_status_lengths)
qed

theorem output_lists_partition_the_map_witness:
  "localapp_classify (\<lambda>r. Inr ((=) r))
     (\<lambda>c. if c = ''general_all'' then [(''d/f'', 1)]
          else if c = ''T_general'' then [(''a.vcf'', 1)] else [])
     False [] [] ''/in'' [''/in/'', ''/in/d'', ''/in/d/f'', ''/in/x''] []
   = Inr ([(''/in/d'', ''I''), (''/in/d/f'', ''E''), (''/in/x'', ''S'')], [])
   \<and> write_path_lists ''/in'' [(''/in/d'', ''I''), (''/in/d/f'', ''E''), (''/in/x'', ''S'')]
   = Inr \<lparr>sfp_outfile = [''in/x'' @ [CHR 0x0A]], efp_outfile = [''in/d/f'' @ [CHR 0x0A]],
          skipped_file_count = 1, selected_file_count = 1, ignored_directory_count = 1\<rparr>
   \<and> {''/in/P1/sample_list.tsv'', ''/in/P1/a.vcf''}
     \<subseteq> set (map fst [(''/in/P1/sample_list.tsv'', ''S''), (''/in/P1/a.vcf'', ''E''),
                       (''/in/x'', ''S'')])"
proof -
  let ?rc = "\<lambda>r. Inr ((=) r) :: error + (string \<Rightarrow> bool)"
  let ?eps = "\<lambda>c. if c = ''general_all'' then [(''d/f'', 1 :: int)]
      else if c = ''T_general'' then [(''a.vcf'', 1)] else []"
  let ?listing = "[''/in/'', ''/in/d'', ''/in/d/f'', ''/in/x'']"
  let ?d = "[(''/in/d'', ''I''), (''/in/d/f'', ''E''), (''/in/x'', ''S'')]"
  let ?ids = "\<lparr>id_header_read = True, fi_matching_method = 0, fi_target_ID = 1,
      ID_prefix_list = [''IPD''], ID_string = Some ''IPD'', id_log = []\<rparr>"
  let ?h = "''#sample_type'' @ [CHR 0x09] @ ''sample_output_ID'' @ [CHR 0x0A]"
  let ?a = "''DNA_tumor'' @ [CHR 0x09] @ ''IPD0001-D01-T01-A01'' @ [CHR 0x0A]"
  let ?p1 = "\<lparr>L1_path = ''/in/P1'', L1_is_dir = True, sample_list_file = Some [?h, ?a],
      L1_listing = [''/in/P1/'', ''/in/P1/sample_list.tsv'', ''/in/P1/a.vcf'']\<rparr>"
  let ?x = "\<lparr>L1_path = ''/in/x'', L1_is_dir = False, sample_list_file = None,
      L1_listing = []\<rparr>"
  let ?begin = "[LogInfo ''Processing the specified TSOPPI directory data...'',
      LogInfo ''Checking the directory content...'']"
  let ?ma = "LogInfo ('' - ID match for sample '' @ dq @ ''IPD0001-D01-T01-A01'' @ dq
      @ '' ('' @ dq @ ''IPD'' @ dq @ '').'')"
  let ?sl = "\<lparr>sl_header_read = True, fi_sample_type = 0, fi_sample_output_ID = 1,
      eligible_sample_dict = [(''DNA_tumor'', ''IPD0001-D01-T01-A01'')], sample_count = 1,
      sl_log = sample_list_found_log ?begin ?p1 @ [?ma]\<rparr>"
  let ?d2 = "[(''/in/P1/sample_list.tsv'', ''S''), (''/in/P1/a.vcf'', ''E''), (''/in/x'', ''S'')]"
  let ?final = "sample_list_found_log ?begin ?p1
      @ [?ma, LogInfo ('' - All listed samples are eligible for''
           @ '' extraction. Processing the file list...'')]"
  have run: "localapp_classify ?rc ?eps False [] [] ''/in'' ?listing [] = Inr (?d, [])"
    by code_simp
  have merged: "tsoppi_classify ?rc ?eps False ?ids ''/in'' [?p1, ?x] = Inr (?d2, ?final)"
    by code_simp
  have split: "[?p1, ?x] = [] @ ?p1 # [?x]" by simp
  have before: "tsoppi_classify ?rc ?eps False ?ids ''/in'' [] = Inr ([], ?begin)"
    by code_simp
  have dir: "L1_is_dir ?p1" and slf: "sample_list_file ?p1 = Some [?h, ?a]" by simp_all
  have sl: "read_sample_list False ?ids (sample_list_found_log ?begin ?p1) [?h, ?a] = Inr ?sl"
    by code_simp
  have elig: "length (eligible_sample_dict ?sl) = sample_count ?sl" by simp
  have listed: "set (L1_listing ?p1) - {L1_path ?p1 @ ''/''}
      = {''/in/P1/sample_list.tsv'', ''/in/P1/a.vcf''}"
    by auto
  have ok: "distinct (map fst ?d) \<and> set (map snd ?d) \<subseteq> {''S'', ''E'', ''I''}
      \<and> (\<forall>p \<in> set (map fst ?d). prefix (''/in'' @ ''/'') p)"
    by simp
  have s: "paths_with_status ''S'' ?d = [''/in/x'']"
    and e: "paths_with_status ''E'' ?d = [''/in/d/f'']"
    and i: "paths_with_status ''I'' ?d = [''/in/d'']"
    and ls: "output_line ''/in'' ''/in/x'' = ''in/x'' @ [CHR 0x0A]"
    and le: "output_line ''/in'' ''/in/d/f'' = ''in/d/f'' @ [CHR 0x0A]"
    by code_simp+
  note inst = output_lists_partition_the_map
      [where re_compile = ?rc and extraction_patterns = ?eps and from_BCL = False
         and DNA_sample_list = "[]" and RNA_sample_list = "[]" and input_dir = "''/in''"
         and listing = ?listing and ?lg1.0 = "[]" and ?d1.0 = ?d and ?lg1' = "[]"
         and req = False and ids = ?ids and entries = "[?p1, ?x]" and ?d2.0 = ?d2
         and lg = ?final and before = "[]" and entry = ?p1 and after = "[?x]"
         and ?d0.0 = "[]" and ?lg0.0 = ?begin and sl_infile = "[?h, ?a]" and sl = ?sl
         and d = ?d]
  have sub: "set (L1_listing ?p1) - {L1_path ?p1 @ ''/''} \<subseteq> set (map fst ?d2)"
    using inst merged split before dir slf sl elig by blast
  have lists: "write_path_lists ''/in'' ?d =
      Inr \<lparr>sfp_outfile = map (output_line ''/in'') (paths_with_status ''S'' ?d),
           efp_outfile = map (output_line ''/in'') (paths_with_status ''E'' ?d),
           skipped_file_count = length (paths_with_status ''S'' ?d),
           selected_file_count = length (paths_with_status ''E'' ?d),
           ignored_directory_count = length (paths_with_status ''I'' ?d)\<rparr>"
    using inst ok by blast
  show ?thesis
    using run sub[unfolded listed] lists[unfolded s e i] ls le by simp
qed

end
